theory Spec2Isabelle
  imports Complex_Main "HOL-Library.Signed_Division" "HOL-Library.Multiset"
    "HOL-Library.List_Lexorder" "HOL-Library.Word"
begin

section \<open>Exact fractions over unbounded integers\<close>

text \<open>
  The program computes with \<^verbatim>\<open>boost::multiprecision::cpp_int\<close>, an unbounded integer:
  it is modelled by \<^typ>\<open>int\<close>. Its \<^verbatim>\<open>/\<close> and \<^verbatim>\<open>%\<close> truncate towards zero, which
  is \<open>sdiv\<close> and \<open>smod\<close>. A C++ exception is a value of type \<open>error\<close>; a function
  that may throw returns \<open>error + 'a\<close>, with \<open>Inl\<close> for the exception.
\<close>

datatype error =
    runtime_error string    \<comment> \<open>\<^verbatim>\<open>throw runtime_error(msg)\<close>\<close>
  | length_error            \<comment> \<open>\<^verbatim>\<open>vector::reserve\<close> beyond \<^verbatim>\<open>max_size()\<close>\<close>
  | invalid_argument        \<comment> \<open>\<^verbatim>\<open>stoi\<close>, \<^verbatim>\<open>stoll\<close>: no digits to convert\<close>
  | out_of_range            \<comment> \<open>\<^verbatim>\<open>stoi\<close>, \<^verbatim>\<open>stoll\<close>: value does not fit\<close>
  | undefined_behaviour     \<comment> \<open>a read past the end of a vector\<close>

record Frac =
  num :: int
  den :: int

function gcd_loop :: "int \<Rightarrow> int \<Rightarrow> int" where
  "gcd_loop a b = (if b \<noteq> 0 then gcd_loop b (a smod b) else a)"
  by pat_completeness auto
termination
proof (relation "measure (\<lambda>(a, b). nat \<bar>b\<bar>)")
  fix a b :: int
  assume "b \<noteq> 0"
  then have "a smod b \<in> {- \<bar>b\<bar> + 1..\<bar>b\<bar> - 1}" by (rule smod_int_range)
  then show "((b, a smod b), (a, b)) \<in> measure (\<lambda>(a, b). nat \<bar>b\<bar>)"
    by auto
qed simp

definition gcd_abs :: "int \<Rightarrow> int \<Rightarrow> int" where
  "gcd_abs a b =
     (let a1 = (if a < 0 then - a else a);
          b1 = (if b < 0 then - b else b)
      in gcd_loop a1 b1)"

definition Frac :: "int \<Rightarrow> int \<Rightarrow> error + Frac" where
  "Frac n d =
     (if d = 0 then Inl (runtime_error ''zero denominator'')
      else
        let n1 = (if d < 0 then - n else n);
            d1 = (if d < 0 then - d else d);
            g = gcd_abs (if n1 < 0 then - n1 else n1) d1
        in Inr \<lparr>num = n1 sdiv g, den = d1 sdiv g\<rparr>)"

definition Frac_add :: "Frac \<Rightarrow> Frac \<Rightarrow> error + Frac" where
  "Frac_add a b = Frac (num a * den b + num b * den a) (den a * den b)"

definition Frac_sub :: "Frac \<Rightarrow> Frac \<Rightarrow> error + Frac" where
  "Frac_sub a b = Frac (num a * den b - num b * den a) (den a * den b)"

definition Frac_mul :: "Frac \<Rightarrow> Frac \<Rightarrow> error + Frac" where
  "Frac_mul a b = Frac (num a * num b) (den a * den b)"

definition Frac_div :: "Frac \<Rightarrow> Frac \<Rightarrow> error + Frac" where
  "Frac_div a b =
     (if num b = 0 then Inl (runtime_error ''division by zero fraction'')
      else Frac (num a * den b) (den a * num b))"

definition isInteger :: "Frac \<Rightarrow> bool" where
  "isInteger a = (den a = 1)"

text \<open>The invariant the comment \<^verbatim>\<open>// always > 0\<close> and the reduction aim at.\<close>

definition reduced :: "Frac \<Rightarrow> bool" where
  "reduced a = (gcd \<bar>num a\<bar> (den a) = 1 \<and> 0 < den a)"

section \<open>Interpolation by Gauss-Jordan elimination\<close>

text \<open>
  \<^verbatim>\<open>interpolate_and_check\<close> works on a local \<^verbatim>\<open>vector<vector<Frac>>\<close>: a list of rows here, updated
  in place by \<open>set_entry\<close>. Every \<^verbatim>\<open>for\<close> loop over an index range is \<open>for_loop\<close> over that
  range, with the variables the body assigns as its state; an exception in the body ends
  the loop. \<open>and_then\<close> passes a result on, or the exception. The x-coordinates are
  \<^verbatim>\<open>int\<close> in the source and are only ever converted to \<^verbatim>\<open>cpp_int\<close>, so they are \<^typ>\<open>int\<close>
  here. Vectors are taken to have fewer than \<open>2\<^sup>3\<^sup>1\<close> elements, so that \<^verbatim>\<open>int k = xs.size()\<close>
  is the length.
\<close>

type_synonym matrix = "Frac list list"

definition and_then :: "error + 'a \<Rightarrow> ('a \<Rightarrow> error + 'b) \<Rightarrow> error + 'b" where
  "and_then m f = (case m of Inl e \<Rightarrow> Inl e | Inr x \<Rightarrow> f x)"

fun for_loop :: "nat list \<Rightarrow> (nat \<Rightarrow> 's \<Rightarrow> error + 's) \<Rightarrow> 's \<Rightarrow> error + 's" where
  "for_loop [] body s = Inr s"
| "for_loop (i # ns) body s =
     (case body i s of Inl e \<Rightarrow> Inl e | Inr s' \<Rightarrow> for_loop ns body s')"

definition set_entry :: "matrix \<Rightarrow> nat \<Rightarrow> nat \<Rightarrow> Frac \<Rightarrow> matrix" where
  "set_entry A i j f = A[i := (A ! i)[j := f]]"

text \<open>
  The augmented matrix: row \<open>i\<close> holds the powers \<open>x\<^sub>i\<^sup>0, \<dots>, x\<^sub>i\<^sup>k\<^sup>-\<^sup>1\<close>, kept in the running
  product \<^verbatim>\<open>power\<close>, and then \<open>y\<^sub>i\<close>. Reading \<^verbatim>\<open>ys[i]\<close> past the end of \<^verbatim>\<open>ys\<close> is undefined
  behaviour.
\<close>

definition build_matrix :: "int list \<Rightarrow> int list \<Rightarrow> error + matrix" where
  "build_matrix xs ys =
     (let k = length xs in
      and_then (Frac 0 1) (\<lambda>zero.
      for_loop [0..<k] (\<lambda>i A.
        and_then
          (for_loop [0..<k] (\<lambda>j (A, power).
             and_then (Frac power 1) (\<lambda>f. Inr (set_entry A i j f, power * xs ! i)))
             (A, 1))
          (\<lambda>(A, power).
             if i < length ys
             then and_then (Frac (ys ! i) 1) (\<lambda>f. Inr (set_entry A i k f))
             else Inl undefined_behaviour))
        (replicate k (replicate (k + 1) zero))))"

text \<open>
  One column of the elimination: the first row from \<^verbatim>\<open>row\<close> on with a nonzero entry in
  the column (\<^verbatim>\<open>row\<close> itself when there is none), the division of the pivot row by a copy
  of the pivot, and the subtraction of the pivot row from every other row whose entry in
  the column is not zero.
\<close>

definition find_pivot :: "matrix \<Rightarrow> nat \<Rightarrow> nat \<Rightarrow> nat \<Rightarrow> nat" where
  "find_pivot A k row col =
     (case find (\<lambda>r. num (A ! r ! col) \<noteq> 0) [row..<k] of None \<Rightarrow> row | Some r \<Rightarrow> r)"

definition normalize_row :: "nat \<Rightarrow> nat \<Rightarrow> nat \<Rightarrow> Frac \<Rightarrow> matrix \<Rightarrow> error + matrix" where
  "normalize_row k col row pivot A =
     for_loop [col..<Suc k] (\<lambda>c A.
       and_then (Frac_div (A ! row ! c) pivot) (\<lambda>f. Inr (set_entry A row c f))) A"

definition eliminate_rows :: "nat \<Rightarrow> nat \<Rightarrow> nat \<Rightarrow> matrix \<Rightarrow> error + matrix" where
  "eliminate_rows k col row A =
     for_loop [0..<k] (\<lambda>r A.
       if r = row then Inr A
       else
         let factor = A ! r ! col in
         if num factor = 0 then Inr A
         else
           for_loop [col..<Suc k] (\<lambda>c A.
             and_then (Frac_mul factor (A ! row ! c)) (\<lambda>p.
             and_then (Frac_sub (A ! r ! c) p) (\<lambda>f. Inr (set_entry A r c f)))) A) A"

text \<open>
  The loop over the columns, \<^verbatim>\<open>col\<close> and \<^verbatim>\<open>row\<close> advancing together. \<open>Inr None\<close> is the
  \<^verbatim>\<open>return false\<close> on a column without pivot; \<open>Inr (Some A)\<close> is the matrix at the end of the
  loop.
\<close>

function elimination :: "nat \<Rightarrow> nat \<Rightarrow> nat \<Rightarrow> matrix \<Rightarrow> error + matrix option" where
  "elimination k col row A =
     (if col < k \<and> row < k then
        let sel = find_pivot A k row col in
        if num (A ! sel ! col) = 0 then Inr None
        else
          let A1 = (if sel \<noteq> row then A[sel := A ! row, row := A ! sel] else A);
              pivot = A1 ! row ! col
          in case normalize_row k col row pivot A1 of
               Inl e \<Rightarrow> Inl e
             | Inr A2 \<Rightarrow>
                 (case eliminate_rows k col row A2 of
                    Inl e \<Rightarrow> Inl e
                  | Inr A3 \<Rightarrow> elimination k (Suc col) (Suc row) A3)
      else Inr (Some A))"
  by pat_completeness auto
termination
  by (relation "measure (\<lambda>(k, col, row, A). k - col)") auto

text \<open>
  The rest of \<^verbatim>\<open>interpolate_and_check\<close>: the last column becomes \<^verbatim>\<open>out_coeff\<close>, and the result
  is whether every coefficient passes the final test, \<open>accept\<close>. The test is all the two
  source files differ in: \<^verbatim>\<open>code.cpp\<close> wants an integer (\<open>interpolate_and_check\<close>), the other
  file an integer that is not \<open>\<le> 0\<close> (\<open>interpolate_and_check_strict\<close>). On a singular column
  \<^verbatim>\<open>out_coeff\<close> is left as it was passed in.
\<close>

definition collect_solution :: "nat \<Rightarrow> matrix \<Rightarrow> error + Frac list" where
  "collect_solution k A =
     and_then (Frac 0 1) (\<lambda>zero.
       for_loop [0..<k] (\<lambda>i out. Inr (out[i := A ! i ! k])) (replicate k zero))"

definition interpolate_and_check_with ::
  "(Frac \<Rightarrow> bool) \<Rightarrow> int list \<Rightarrow> int list \<Rightarrow> Frac list \<Rightarrow> error + bool \<times> Frac list" where
  "interpolate_and_check_with accept xs ys out_coeff =
     (let k = length xs in
      and_then (build_matrix xs ys) (\<lambda>A.
      and_then (elimination k 0 0 A) (\<lambda>r.
        case r of
          None \<Rightarrow> Inr (False, out_coeff)
        | Some A' \<Rightarrow>
            and_then (collect_solution k A') (\<lambda>out. Inr (list_all accept out, out)))))"

definition interpolate_and_check :: "int list \<Rightarrow> int list \<Rightarrow> Frac list \<Rightarrow> error + bool \<times> Frac list" where
  "interpolate_and_check = interpolate_and_check_with isInteger"

definition interpolate_and_check_strict ::
  "int list \<Rightarrow> int list \<Rightarrow> Frac list \<Rightarrow> error + bool \<times> Frac list" where
  "interpolate_and_check_strict =
     interpolate_and_check_with (\<lambda>c. isInteger c \<and> \<not> num c \<le> 0)"

section \<open>The search over subsets\<close>

text \<open>
  \<^verbatim>\<open>std::prev_permutation\<close> is library code. It is modelled by the algorithm the standard
  library runs: from the right, find the first position \<open>i\<close> whose successor is smaller
  (\<open>find_descent\<close>); from the right again, find the first position \<open>i2\<close> whose element is
  smaller than the one at \<open>i\<close> (\<open>find_smaller\<close>); swap the two and reverse what follows
  \<open>i\<close>. Where no position has a smaller successor the whole range is reversed and the
  result is \<open>false\<close>.
\<close>

primrec find_descent :: "int list \<Rightarrow> nat \<Rightarrow> nat option" where
  "find_descent a 0 = None"
| "find_descent a (Suc i) = (if a ! Suc i < a ! i then Some i else find_descent a i)"

primrec find_smaller :: "int list \<Rightarrow> int \<Rightarrow> nat \<Rightarrow> nat" where
  "find_smaller a v 0 = 0"
| "find_smaller a v (Suc j) = (if a ! j < v then j else find_smaller a v j)"

definition prev_permutation :: "int list \<Rightarrow> bool \<times> int list" where
  "prev_permutation a =
     (case find_descent a (length a - 1) of
        None \<Rightarrow> (False, rev a)
      | Some i \<Rightarrow>
          let i2 = find_smaller a (a ! i) (length a);
              b = a[i := a ! i2, i2 := a ! i]
          in (True, take (Suc i) b @ rev (drop (Suc i) b)))"

text \<open>
  The body of the \<^verbatim>\<open>do\<close> loop of \<^verbatim>\<open>find_valid_constant\<close>: the points the mask selects
  (\<open>select_points\<close>), then one call of \<^verbatim>\<open>interpolate_and_check\<close>, here the parameter \<open>ic\<close>
  since the two source files differ in nothing else. The vector \<^verbatim>\<open>choose\<close> of the source is
  \<open>chosen\<close> here, \<open>choose\<close> being the binomial coefficient. \<^verbatim>\<open>reserve(k)\<close> throws on a
  negative \<open>k\<close>; reading \<^verbatim>\<open>ys_full[i]\<close> or \<^verbatim>\<open>coeffs[0]\<close> past the end is undefined
  behaviour. The result is \<open>Inr (Some c)\<close> where the source returns \<^verbatim>\<open>true\<close> with
  \<^verbatim>\<open>constant_out = c\<close>, and \<open>Inr None\<close> where it goes on to the loop condition.
\<close>

definition select_points :: "int list \<Rightarrow> int list \<Rightarrow> int list \<Rightarrow> error + int list \<times> int list" where
  "select_points xs_full ys_full chosen =
     for_loop [0..<length xs_full] (\<lambda>i (xs, ys).
       if chosen ! i \<noteq> 0 then
         if i < length ys_full then Inr (xs @ [xs_full ! i], ys @ [ys_full ! i])
         else Inl undefined_behaviour
       else Inr (xs, ys)) ([], [])"

type_synonym checker = "int list \<Rightarrow> int list \<Rightarrow> Frac list \<Rightarrow> error + bool \<times> Frac list"

definition attempt :: "checker \<Rightarrow> int list \<Rightarrow> int list \<Rightarrow> int \<Rightarrow> int list \<Rightarrow> error + int option" where
  "attempt ic xs_full ys_full k chosen =
     (if k < 0 then Inl length_error
      else
        and_then (select_points xs_full ys_full chosen) (\<lambda>(xs, ys).
        and_then (ic xs ys []) (\<lambda>(ok, coeffs).
          if ok then
            (case coeffs of [] \<Rightarrow> Inl undefined_behaviour | c # cs \<Rightarrow> Inr (Some (num c)))
          else Inr None)))"

text \<open>
  The loop. Next to the outcome it returns the masks whose body ran, in order: a record of
  which subsets were examined, which the source does not keep.
\<close>

function search_loop ::
  "checker \<Rightarrow> int list \<Rightarrow> int list \<Rightarrow> int \<Rightarrow> int list \<Rightarrow> int list list \<times> (error + int option)" where
  "search_loop ic xs_full ys_full k chosen =
     (case attempt ic xs_full ys_full k chosen of
        Inl e \<Rightarrow> ([chosen], Inl e)
      | Inr (Some c) \<Rightarrow> ([chosen], Inr (Some c))
      | Inr None \<Rightarrow>
          (case prev_permutation chosen of
             (True, chosen') \<Rightarrow>
               (case search_loop ic xs_full ys_full k chosen' of
                  (examined, r) \<Rightarrow> (chosen # examined, r))
           | (False, chosen') \<Rightarrow> ([chosen], Inr None)))"
  by pat_completeness auto

text \<open>
  The first mask: \<open>n\<close> zeros, ones written at the indices below \<open>k\<close>, sorted with
  \<^verbatim>\<open>greater<int>\<close>, that is in descending order. \<^verbatim>\<open>find_valid_constant\<close> returns \<^verbatim>\<open>false\<close>
  before the loop when \<open>k > n\<close>.
\<close>

definition initial_chosen :: "nat \<Rightarrow> int \<Rightarrow> int list" where
  "initial_chosen n k =
     rev (sort (fold (\<lambda>i chosen. chosen[i := 1]) [0..<nat k] (replicate n 0)))"

definition find_valid_constant_with ::
  "checker \<Rightarrow> int list \<Rightarrow> int list \<Rightarrow> int \<Rightarrow> int list list \<times> (error + int option)" where
  "find_valid_constant_with ic xs_full ys_full k =
     (let n = length xs_full in
      if k > int n then ([], Inr None)
      else search_loop ic xs_full ys_full k (initial_chosen n k))"

definition find_valid_constant ::
  "int list \<Rightarrow> int list \<Rightarrow> int \<Rightarrow> int list list \<times> (error + int option)" where
  "find_valid_constant = find_valid_constant_with interpolate_and_check"

definition find_valid_constant_strict ::
  "int list \<Rightarrow> int list \<Rightarrow> int \<Rightarrow> int list list \<times> (error + int option)" where
  "find_valid_constant_strict = find_valid_constant_with interpolate_and_check_strict"

text \<open>The masks the loop runs through when no subset is accepted.\<close>

function masks_from :: "int list \<Rightarrow> int list list" where
  "masks_from chosen =
     chosen # (case prev_permutation chosen of
                 (True, chosen') \<Rightarrow> masks_from chosen'
               | (False, chosen') \<Rightarrow> [])"
  by pat_completeness auto



section \<open>Reading and solving a batch of records\<close>

text \<open>
  Strings are lists of bytes; a position is a \<open>nat\<close> and \<^verbatim>\<open>string::npos\<close> is \<open>None\<close>.
  \<^verbatim>\<open>isspace\<close> and \<^verbatim>\<open>isdigit\<close> are those of the C locale. \<^verbatim>\<open>std::stoll\<close> and \<^verbatim>\<open>std::stoi\<close>
  skip white space, read an optional sign and the longest run of decimal digits, and throw
  \<^verbatim>\<open>invalid_argument\<close> where there is no digit and \<^verbatim>\<open>out_of_range\<close> where the value does
  not fit the type.
\<close>

definition isspace :: "char \<Rightarrow> bool" where
  "isspace c = (c = CHR '' '' \<or> (9 :: nat) \<le> of_char c \<and> of_char c \<le> (13 :: nat))"

definition isdigit :: "char \<Rightarrow> bool" where
  "isdigit c = ((48 :: nat) \<le> of_char c \<and> of_char c \<le> (57 :: nat))"

definition find_char :: "string \<Rightarrow> char \<Rightarrow> nat \<Rightarrow> nat option" where
  "find_char s c pos = find (\<lambda>i. s ! i = c) [pos..<length s]"

definition find_str :: "string \<Rightarrow> string \<Rightarrow> nat \<Rightarrow> nat option" where
  "find_str s key pos = find (\<lambda>i. take (length key) (drop i s) = key) [pos..<Suc (length s)]"

definition substr :: "string \<Rightarrow> nat \<Rightarrow> nat \<Rightarrow> string" where
  "substr s pos len = take len (drop pos s)"

definition scan_while :: "(char \<Rightarrow> bool) \<Rightarrow> string \<Rightarrow> nat \<Rightarrow> nat" where
  "scan_while p s pos = pos + length (takeWhile p (drop pos s))"

definition trim :: "string \<Rightarrow> string" where
  "trim s = rev (dropWhile isspace (rev (dropWhile isspace s)))"

definition digit_value :: "char \<Rightarrow> int" where
  "digit_value c = int (of_char c) - 48"

definition decimal :: "string \<Rightarrow> int" where
  "decimal ds = foldl (\<lambda>v c. v * 10 + digit_value c) 0 ds"

definition strtoll :: "string \<Rightarrow> int option" where
  "strtoll s =
     (let t = dropWhile isspace s;
          neg = (t \<noteq> [] \<and> hd t = CHR ''-'');
          u = (if t \<noteq> [] \<and> (hd t = CHR ''-'' \<or> hd t = CHR ''+'') then tl t else t);
          ds = takeWhile isdigit u
      in if ds = [] then None else Some (if neg then - decimal ds else decimal ds))"

definition stoll :: "string \<Rightarrow> error + int" where
  "stoll s =
     (case strtoll s of
        None \<Rightarrow> Inl invalid_argument
      | Some v \<Rightarrow> if v < - (2 ^ 63) \<or> 2 ^ 63 - 1 < v then Inl out_of_range else Inr v)"

definition stoi :: "string \<Rightarrow> error + int" where
  "stoi s =
     (case strtoll s of
        None \<Rightarrow> Inl invalid_argument
      | Some v \<Rightarrow> if v < - (2 ^ 31) \<or> 2 ^ 31 - 1 < v then Inl out_of_range else Inr v)"

text \<open>The conversion \<^verbatim>\<open>(int)\<close> of a wider integer keeps the low 32 bits.\<close>

definition int_cast :: "int \<Rightarrow> int" where
  "int_cast v = sint (word_of_int v :: 32 word)"

definition quoted :: "string \<Rightarrow> string" where
  "quoted s = CHR 0x22 # s @ [CHR 0x22]"

definition parse_small_int_after_key :: "string \<Rightarrow> nat \<Rightarrow> error + int" where
  "parse_small_int_after_key s pos_key =
     (case find_char s CHR '':'' pos_key of
        None \<Rightarrow> Inl (runtime_error ''invalid json structure (int)'')
      | Some colon \<Rightarrow>
          let p = scan_while isspace s (colon + 1);
              q = scan_while (\<lambda>c. c = CHR ''-'' \<or> isdigit c) s p
          in stoll (trim (substr s p (q - p))))"

definition parse_quoted_after_key :: "string \<Rightarrow> nat \<Rightarrow> error + string" where
  "parse_quoted_after_key s pos_key =
     (case find_char s CHR '':'' pos_key of
        None \<Rightarrow> Inl (runtime_error ''invalid json structure (str)'')
      | Some colon \<Rightarrow>
          (case find_char s (CHR 0x22) (colon + 1) of
             None \<Rightarrow> Inl (runtime_error ''invalid json: missing opening quote'')
           | Some q \<Rightarrow>
               (case find_char s (CHR 0x22) (q + 1) of
                  None \<Rightarrow> Inl (runtime_error ''invalid json: missing closing quote'')
                | Some r \<Rightarrow> Inr (substr s (q + 1) (r - (q + 1))))))"

fun parse_in_base_loop :: "string \<Rightarrow> int \<Rightarrow> int \<Rightarrow> error + int" where
  "parse_in_base_loop [] base val = Inr val"
| "parse_in_base_loop (ch # rest) base val =
     (if isspace ch then parse_in_base_loop rest base val
      else
        let c = (of_char ch :: nat) in
        if 48 \<le> c \<and> c \<le> 57 \<or> 97 \<le> c \<and> c \<le> 122 \<or> 65 \<le> c \<and> c \<le> 90 then
          let d = (if 48 \<le> c \<and> c \<le> 57 then int c - 48
                   else if 97 \<le> c \<and> c \<le> 122 then int c - 97 + 10
                   else int c - 65 + 10)
          in if d < 0 \<or> d \<ge> base
             then Inl (runtime_error ''digit >= base in parse_in_base_cpp'')
             else parse_in_base_loop rest base (val * base + d)
        else Inl (runtime_error (''invalid digit: '' @ [ch])))"

definition parse_in_base_cpp :: "string \<Rightarrow> int \<Rightarrow> error + int" where
  "parse_in_base_cpp s_raw base = parse_in_base_loop s_raw base 0"

fun split_loop :: "string \<Rightarrow> nat list \<Rightarrow> string list \<Rightarrow> int \<Rightarrow> nat option \<Rightarrow> string list" where
  "split_loop input [] objs depth start = objs"
| "split_loop input (i # rest) objs depth start =
     (let c = input ! i in
      if c = CHR ''{'' then
        split_loop input rest objs (depth + 1) (if depth = 0 then Some i else start)
      else if c = CHR ''}'' then
        (case start of
           Some st \<Rightarrow>
             if depth - 1 = 0
             then split_loop input rest (objs @ [substr input st (i - st + 1)]) (depth - 1) None
             else split_loop input rest objs (depth - 1) start
         | None \<Rightarrow> split_loop input rest objs (depth - 1) start)
      else split_loop input rest objs depth start)"

definition split_json_objects :: "string \<Rightarrow> string list" where
  "split_json_objects input = split_loop input [0..<length input] [] 0 None"

function to_string :: "nat \<Rightarrow> string" where
  "to_string n =
     (if n < 10 then [char_of (48 + n)]
      else to_string (n div 10) @ [char_of (48 + n mod 10)])"
  by pat_completeness auto
termination
  by (relation "measure id") auto

definition cpp_int_to_string :: "int \<Rightarrow> string" where
  "cpp_int_to_string v = (if v < 0 then CHR ''-'' # to_string (nat (- v)) else to_string (nat v))"

text \<open>
  One pass of the loop over the indices \<open>1, \<dots>, n\<close> of \<^verbatim>\<open>solve_one_json_string\<close>: the index
  has no entry (\<open>Skip\<close>), the function returns \<^verbatim>\<open>false\<close> (\<open>Fail\<close>), or a point is appended.
\<close>

datatype step = Skip | Fail | Point int int

definition read_base :: "string \<Rightarrow> nat \<Rightarrow> string \<Rightarrow> error + int option" where
  "read_base obj_str pos_base_key base_str =
     (case stoi base_str of
        Inr b \<Rightarrow> Inr (Some b)
      | Inl e \<Rightarrow>
          (case find_char obj_str CHR '':'' pos_base_key of
             None \<Rightarrow> Inr None
           | Some colon \<Rightarrow>
               let p = scan_while isspace obj_str (colon + 1);
                   q = scan_while (\<lambda>c. isdigit c \<or> c = CHR ''-'') obj_str p
               in and_then (stoi (trim (substr obj_str p (q - p)))) (\<lambda>b. Inr (Some b))))"

definition read_point :: "string \<Rightarrow> nat \<Rightarrow> error + step" where
  "read_point obj_str idx =
     (case find_str obj_str (quoted (to_string idx)) 0 of
        None \<Rightarrow> Inr Skip
      | Some pos \<Rightarrow>
          (case find_str obj_str (quoted ''base'') pos of
             None \<Rightarrow> Inr Fail
           | Some pos_base_key \<Rightarrow>
               and_then (parse_quoted_after_key obj_str pos_base_key) (\<lambda>base_str.
               and_then (read_base obj_str pos_base_key base_str) (\<lambda>b.
                 case b of
                   None \<Rightarrow> Inr Fail
                 | Some base \<Rightarrow>
                     (case find_str obj_str (quoted ''value'') pos of
                        None \<Rightarrow> Inr Fail
                      | Some pos_val_key \<Rightarrow>
                          and_then (parse_quoted_after_key obj_str pos_val_key) (\<lambda>val.
                          and_then (parse_in_base_cpp val base) (\<lambda>y.
                            Inr (Point (int_cast (int idx)) y))))))))"

fun read_points ::
  "string \<Rightarrow> nat list \<Rightarrow> int list \<Rightarrow> int list \<Rightarrow> error + (int list \<times> int list) option" where
  "read_points obj_str [] xs ys = Inr (Some (xs, ys))"
| "read_points obj_str (idx # rest) xs ys =
     (case read_point obj_str idx of
        Inl e \<Rightarrow> Inl e
      | Inr Skip \<Rightarrow> read_points obj_str rest xs ys
      | Inr Fail \<Rightarrow> Inr None
      | Inr (Point x y) \<Rightarrow> read_points obj_str rest (xs @ [x]) (ys @ [y]))"

text \<open>
  \<^verbatim>\<open>solve_one_json_string\<close>: \<open>Inr None\<close> is \<^verbatim>\<open>false\<close>, \<open>Inr (Some s)\<close> is \<^verbatim>\<open>true\<close> with the
  output string \<open>s\<close>. The parameter \<open>capacity\<close> is the largest \<open>n\<close> for which
  \<^verbatim>\<open>reserve(n)\<close> succeeds, which the source does not fix; beyond it \<^verbatim>\<open>reserve\<close> throws.
  \<open>ic\<close> is the check of the file at hand.
\<close>

definition solve_one_json_string :: "checker \<Rightarrow> nat \<Rightarrow> string \<Rightarrow> error + string option" where
  "solve_one_json_string ic capacity obj_str =
     (case find_str obj_str (quoted ''keys'') 0 of
        None \<Rightarrow> Inr None
      | Some pos_keys \<Rightarrow>
          (case (find_str obj_str (quoted ''n'') pos_keys, find_str obj_str (quoted ''k'') pos_keys) of
             (Some pos_n, Some pos_k) \<Rightarrow>
               and_then (parse_small_int_after_key obj_str pos_n) (\<lambda>n.
               and_then (parse_small_int_after_key obj_str pos_k) (\<lambda>k.
                 if n \<le> 0 \<or> k \<le> 0 then Inr None
                 else if int capacity < n then Inl length_error
                 else
                   and_then (read_points obj_str [1..<Suc (nat n)] [] []) (\<lambda>r.
                     case r of
                       None \<Rightarrow> Inr None
                     | Some (xs, ys) \<Rightarrow>
                         if int_cast (int (length xs)) < k then Inr None
                         else
                           (case snd (find_valid_constant_with ic xs ys (int_cast k)) of
                              Inl e \<Rightarrow> Inl e
                            | Inr None \<Rightarrow> Inr None
                            | Inr (Some c) \<Rightarrow> Inr (Some (cpp_int_to_string c))))))
           | _ \<Rightarrow> Inr None))"

text \<open>
  \<^verbatim>\<open>main\<close>. It returns the lines written to standard output and how the process ends:
  with an exit status, or, since \<^verbatim>\<open>main\<close> has no handler, by \<^verbatim>\<open>std::terminate\<close> on the
  first exception that leaves \<^verbatim>\<open>solve_one_json_string\<close>.
\<close>

datatype ending = Exit int | Terminate error

fun main_loop :: "checker \<Rightarrow> nat \<Rightarrow> string list \<Rightarrow> string list \<Rightarrow> bool \<Rightarrow> string list \<times> ending" where
  "main_loop ic capacity [] out anyPrinted = (out, Exit (if anyPrinted then 0 else 1))"
| "main_loop ic capacity (obj # rest) out anyPrinted =
     (case solve_one_json_string ic capacity obj of
        Inl e \<Rightarrow> (out, Terminate e)
      | Inr (Some cstr) \<Rightarrow> main_loop ic capacity rest (out @ [cstr]) True
      | Inr None \<Rightarrow> main_loop ic capacity rest (out @ [''ERROR'']) anyPrinted)"

definition main :: "checker \<Rightarrow> nat \<Rightarrow> string \<Rightarrow> string list \<times> ending" where
  "main ic capacity input =
     (if input = [] then ([], Exit 1)
      else
        let objects = split_json_objects input in
        if objects = [] then ([], Exit 1)
        else main_loop ic capacity objects [] False)"

definition record_of :: "nat \<Rightarrow> nat \<Rightarrow> (nat \<times> string \<times> string) list \<Rightarrow> string" where
  "record_of n k points =
     ''{'' @ quoted ''keys'' @ '': {'' @ quoted ''n'' @ '': '' @ to_string n @ '', '' @
       quoted ''k'' @ '': '' @ to_string k @ ''}'' @
     concat (map (\<lambda>(i, b, v). '', '' @ quoted (to_string i) @ '': {'' @ quoted ''base'' @ '': '' @
       quoted b @ '', '' @ quoted ''value'' @ '': '' @ quoted v @ ''}'') points) @ ''}''"

section \<open>Polynomials of the claims\<close>

text \<open>
  A polynomial with integer coefficients \<open>c\<^sub>0, c\<^sub>1, \<dots>\<close>, lowest degree first, and its value
  at \<open>x\<close>: the vocabulary of the claims about reconstruction, not a function of the
  program.
\<close>

fun eval_poly :: "int list \<Rightarrow> int \<Rightarrow> int" where
  "eval_poly [] x = 0"
| "eval_poly (c # cs) x = c + x * eval_poly cs x"

section \<open>The fraction invariant\<close>

lemma gcd_loop_eq_gcd: "0 \<le> a \<Longrightarrow> 0 \<le> b \<Longrightarrow> gcd_loop a b = gcd a b"
proof (induction a b rule: gcd_loop.induct)
  case (1 a b)
  show ?case
  proof (cases "b = 0")
    case True
    with "1.prems" show ?thesis by simp
  next
    case False
    with "1.prems" have m: "a smod b = a mod b"
      by (simp add: smod_int_alt_def sgn_if)
    from False "1.prems" have "0 \<le> a mod b" by simp
    with "1.IH" [OF False] "1.prems" m have "gcd_loop b (a smod b) = gcd b (a mod b)"
      by simp
    also have "\<dots> = gcd a b"
      by (metis gcd_red_int)
    finally show ?thesis using False by simp
  qed
qed

lemma gcd_abs_eq_gcd: "gcd_abs a b = gcd a b"
proof -
  have "gcd_abs a b = gcd_loop \<bar>a\<bar> \<bar>b\<bar>"
    by (simp add: gcd_abs_def Let_def abs_if)
  also have "\<dots> = gcd \<bar>a\<bar> \<bar>b\<bar>" by (rule gcd_loop_eq_gcd) simp_all
  finally show ?thesis by simp
qed

lemma sdiv_exact: "(g::int) dvd a \<Longrightarrow> 0 < g \<Longrightarrow> a sdiv g = a div g"
  by (simp add: signed_divide_int_eq_divide_int)

lemma Frac_eq:
  "d \<noteq> 0 \<Longrightarrow>
   Frac n d = Inr \<lparr>num = sgn d * n div gcd n d, den = \<bar>d\<bar> div gcd n d\<rparr>"
proof -
  assume d: "d \<noteq> 0"
  then have g: "0 < gcd n d" by simp
  have "gcd n d dvd sgn d * n" "gcd n d dvd \<bar>d\<bar>" by simp_all
  with g have "(sgn d * n) sdiv gcd n d = sgn d * n div gcd n d"
    "\<bar>d\<bar> sdiv gcd n d = \<bar>d\<bar> div gcd n d"
    by (simp_all only: sdiv_exact)
  with d show ?thesis
    by (cases "d < 0") (simp_all add: Frac_def Let_def gcd_abs_eq_gcd)
qed

lemma Frac_reduced: "Frac n d = Inr f \<Longrightarrow> reduced f"
proof -
  assume a: "Frac n d = Inr f"
  then have d: "d \<noteq> 0" by (auto simp: Frac_def split: if_splits)
  then have g: "0 < gcd n d" by simp
  from a d have f: "f = \<lparr>num = sgn d * n div gcd n d, den = \<bar>d\<bar> div gcd n d\<rparr>"
    by (simp add: Frac_eq)
  have e: "gcd (sgn d * n) \<bar>d\<bar> = gcd n d"
    using d by (cases "d < 0") (simp_all add: sgn_if)
  have "coprime (sgn d * n div gcd (sgn d * n) \<bar>d\<bar>) (\<bar>d\<bar> div gcd (sgn d * n) \<bar>d\<bar>)"
    by (rule div_gcd_coprime) (use d in simp)
  then have c: "gcd (sgn d * n div gcd n d) (\<bar>d\<bar> div gcd n d) = 1"
    unfolding e by (simp only: coprime_iff_gcd_eq_1)
  have "gcd n d \<le> \<bar>d\<bar>"
    by (rule zdvd_imp_le) (use d in simp_all)
  with g have p: "0 < \<bar>d\<bar> div gcd n d"
    by (simp only: pos_imp_zdiv_pos_iff)
  from c p show ?thesis by (simp add: f reduced_def)
qed

lemma reduced_zero_num: "reduced f \<Longrightarrow> num f = 0 \<Longrightarrow> den f = 1"
  by (auto simp: reduced_def)

lemma Frac_ops_reduced:
  "Frac_add a b = Inr f \<Longrightarrow> reduced f"
  "Frac_sub a b = Inr f \<Longrightarrow> reduced f"
  "Frac_mul a b = Inr f \<Longrightarrow> reduced f"
  "Frac_div a b = Inr f \<Longrightarrow> reduced f"
  unfolding Frac_add_def Frac_sub_def Frac_mul_def Frac_div_def
  by (auto split: if_splits dest: Frac_reduced)

text \<open>
  Claim C4. Whatever the constructor or one of the four operators returns (that is, whenever
  it does not throw) is in lowest terms with a positive denominator, so the sign sits in
  the numerator; and a zero numerator comes with denominator 1. No assumption is made on
  the operands \<open>a\<close> and \<open>b\<close>.
\<close>

theorem Frac_results_reduced:
  assumes "r \<in> {Frac n d, Frac_add a b, Frac_sub a b, Frac_mul a b, Frac_div a b}"
    and "r = Inr f"
  shows "gcd \<bar>num f\<bar> (den f) = 1 \<and> 0 < den f \<and> (num f = 0 \<longrightarrow> den f = 1)"
proof -
  from assms consider "Frac n d = Inr f" | "Frac_add a b = Inr f" | "Frac_sub a b = Inr f"
    | "Frac_mul a b = Inr f" | "Frac_div a b = Inr f"
    by auto
  then have "reduced f"
    by cases (simp_all add: Frac_reduced Frac_ops_reduced)
  then show ?thesis by (auto simp: reduced_def)
qed

theorem Frac_results_reduced_witness:
  "Frac 6 (- 4) = Inr \<lparr>num = - 3, den = 2\<rparr> \<and>
   Frac_add \<lparr>num = 1, den = 2\<rparr> \<lparr>num = - 1, den = 2\<rparr> = Inr \<lparr>num = 0, den = 1\<rparr> \<and>
   Frac_sub \<lparr>num = 1, den = 2\<rparr> \<lparr>num = 1, den = 3\<rparr> = Inr \<lparr>num = 1, den = 6\<rparr> \<and>
   Frac_mul \<lparr>num = 2, den = 3\<rparr> \<lparr>num = - 3, den = 4\<rparr> = Inr \<lparr>num = - 1, den = 2\<rparr> \<and>
   Frac_div \<lparr>num = 1, den = 2\<rparr> \<lparr>num = - 1, den = 3\<rparr> = Inr \<lparr>num = - 3, den = 2\<rparr> \<and>
   gcd (abs (num \<lparr>num = - 3, den = 2\<rparr>)) (den \<lparr>num = - 3, den = 2\<rparr>) = 1 \<and>
   gcd (abs (num \<lparr>num = 0, den = 1\<rparr>)) (den \<lparr>num = 0, den = 1\<rparr>) = 1 \<and>
   gcd (abs (num \<lparr>num = 1, den = 6\<rparr>)) (den \<lparr>num = 1, den = 6\<rparr>) = 1 \<and>
   gcd (abs (num \<lparr>num = - 1, den = 2\<rparr>)) (den \<lparr>num = - 1, den = 2\<rparr>) = 1"
proof -
  have c: "Frac 6 (- 4) = Inr \<lparr>num = - 3, den = 2\<rparr>" by code_simp
  have a: "Frac_add \<lparr>num = 1, den = 2\<rparr> \<lparr>num = - 1, den = 2\<rparr> = Inr \<lparr>num = 0, den = 1\<rparr>"
    by code_simp
  have s: "Frac_sub \<lparr>num = 1, den = 2\<rparr> \<lparr>num = 1, den = 3\<rparr> = Inr \<lparr>num = 1, den = 6\<rparr>"
    by code_simp
  have m: "Frac_mul \<lparr>num = 2, den = 3\<rparr> \<lparr>num = - 3, den = 4\<rparr> = Inr \<lparr>num = - 1, den = 2\<rparr>"
    by code_simp
  have d: "Frac_div \<lparr>num = 1, den = 2\<rparr> \<lparr>num = - 1, den = 3\<rparr> = Inr \<lparr>num = - 3, den = 2\<rparr>"
    by code_simp
  show ?thesis
    using c a s m d
      Frac_results_reduced [of "Frac 6 (- 4)" 6 "- 4" _ _ "\<lparr>num = - 3, den = 2\<rparr>"]
      Frac_results_reduced [of "Frac_add \<lparr>num = 1, den = 2\<rparr> \<lparr>num = - 1, den = 2\<rparr>" _ _
         "\<lparr>num = 1, den = 2\<rparr>" "\<lparr>num = - 1, den = 2\<rparr>" "\<lparr>num = 0, den = 1\<rparr>"]
      Frac_results_reduced [of "Frac_sub \<lparr>num = 1, den = 2\<rparr> \<lparr>num = 1, den = 3\<rparr>" _ _
         "\<lparr>num = 1, den = 2\<rparr>" "\<lparr>num = 1, den = 3\<rparr>" "\<lparr>num = 1, den = 6\<rparr>"]
      Frac_results_reduced [of "Frac_mul \<lparr>num = 2, den = 3\<rparr> \<lparr>num = - 3, den = 4\<rparr>" _ _
         "\<lparr>num = 2, den = 3\<rparr>" "\<lparr>num = - 3, den = 4\<rparr>" "\<lparr>num = - 1, den = 2\<rparr>"]
    by simp
qed

definition DivisionByZero :: "error \<Rightarrow> bool" where
  "DivisionByZero e =
     (e = runtime_error ''zero denominator'' \<or> e = runtime_error ''division by zero fraction'')"

text \<open>
  Claim C7. The spec's \<open>DivisionByZero\<close> is, in the program, a \<^verbatim>\<open>runtime_error\<close> with one
  of two messages. The constructor takes its arguments by value and throws before it
  stores anything; \<^verbatim>\<open>operator/\<close> is a \<^verbatim>\<open>const\<close> member on a \<^verbatim>\<open>const\<close> reference. Both
  are functions of their arguments alone, so a failing call returns the exception and
  nothing else: there is no state it could have changed.
\<close>

theorem division_by_zero_fails:
  "(\<exists>e. Frac n 0 = Inl e \<and> DivisionByZero e) \<and>
   (num b = 0 \<longrightarrow> (\<exists>e. Frac_div a b = Inl e \<and> DivisionByZero e))"
  by (simp add: Frac_def Frac_div_def DivisionByZero_def)

theorem division_by_zero_fails_witness:
  "num \<lparr>num = 0, den = 1\<rparr> = 0 \<and>
   Frac 5 0 = Inl (runtime_error ''zero denominator'') \<and>
   Frac_div \<lparr>num = 3, den = 4\<rparr> \<lparr>num = 0, den = 1\<rparr> =
     Inl (runtime_error ''division by zero fraction'')"
  using division_by_zero_fails [of 5 "\<lparr>num = 0, den = 1\<rparr>" "\<lparr>num = 3, den = 4\<rparr>"]
  by (simp add: Frac_def Frac_div_def)

section \<open>Fractions as rational numbers\<close>

text \<open>The value a fraction stands for. On reduced fractions the reading is one to one.\<close>

definition to_rat :: "Frac \<Rightarrow> rat" where
  "to_rat a = of_int (num a) / of_int (den a)"

lemma Frac_to_rat:
  assumes "d \<noteq> 0"
  shows "\<exists>f. Frac n d = Inr f \<and> reduced f \<and> to_rat f = of_int n / of_int d"
proof -
  let ?g = "gcd n d"
  let ?f = "\<lparr>num = sgn d * n div ?g, den = \<bar>d\<bar> div ?g\<rparr>"
  from assms have f: "Frac n d = Inr ?f" by (rule Frac_eq)
  then have r: "reduced ?f" by (rule Frac_reduced)
  from assms have g: "(of_int ?g :: rat) \<noteq> 0" by simp
  have "to_rat ?f = (of_int (sgn d * n) / of_int ?g) / (of_int \<bar>d\<bar> / of_int ?g)"
    by (simp add: to_rat_def of_int_div)
  also have "\<dots> = of_int (sgn d * n) / of_int \<bar>d\<bar>"
    using g by simp
  also have "\<dots> = of_int n / of_int d"
    using assms by (cases "d < 0") (simp_all add: sgn_if)
  finally show ?thesis using f r by blast
qed

lemma reduced_den_neq0: "reduced a \<Longrightarrow> (of_int (den a) :: rat) \<noteq> 0"
  by (simp add: reduced_def)

lemma Frac_add_to_rat:
  assumes "reduced a" "reduced b"
  shows "\<exists>f. Frac_add a b = Inr f \<and> reduced f \<and> to_rat f = to_rat a + to_rat b"
proof -
  from assms have d: "den a * den b \<noteq> 0" by (simp add: reduced_def)
  from Frac_to_rat [OF d, of "num a * den b + num b * den a"] 
  show ?thesis
    using assms [THEN reduced_den_neq0]
    by (simp add: Frac_add_def to_rat_def add_frac_eq)
qed

lemma Frac_sub_to_rat:
  assumes "reduced a" "reduced b"
  shows "\<exists>f. Frac_sub a b = Inr f \<and> reduced f \<and> to_rat f = to_rat a - to_rat b"
proof -
  from assms have d: "den a * den b \<noteq> 0" by (simp add: reduced_def)
  from Frac_to_rat [OF d, of "num a * den b - num b * den a"] 
  show ?thesis
    using assms [THEN reduced_den_neq0]
    by (simp add: Frac_sub_def to_rat_def diff_frac_eq)
qed

lemma Frac_mul_to_rat:
  assumes "reduced a" "reduced b"
  shows "\<exists>f. Frac_mul a b = Inr f \<and> reduced f \<and> to_rat f = to_rat a * to_rat b"
proof -
  from assms have d: "den a * den b \<noteq> 0" by (simp add: reduced_def)
  from Frac_to_rat [OF d, of "num a * num b"] 
  show ?thesis
    by (simp add: Frac_mul_def to_rat_def)
qed

lemma Frac_div_to_rat:
  assumes "reduced a" "reduced b" "num b \<noteq> 0"
  shows "\<exists>f. Frac_div a b = Inr f \<and> reduced f \<and> to_rat f = to_rat a / to_rat b"
proof -
  from assms have d: "den a * num b \<noteq> 0" by (simp add: reduced_def)
  from Frac_to_rat [OF d, of "num a * den b"] 
  show ?thesis
    using assms(3) by (simp add: Frac_div_def to_rat_def)
qed

lemma to_rat_zero_iff: "reduced a \<Longrightarrow> to_rat a = 0 \<longleftrightarrow> num a = 0"
  by (simp add: to_rat_def reduced_def)



section \<open>Correctness of the elimination\<close>

lemma and_then_Inr [simp]: "and_then (Inr x) f = f x"
  by (simp add: and_then_def)

lemma and_then_Inl [simp]: "and_then (Inl e) f = Inl e"
  by (simp add: and_then_def)

lemma for_loop_append:
  "for_loop (ms @ ns) body s = and_then (for_loop ms body s) (for_loop ns body)"
  by (induction ms arbitrary: s) (simp_all split: sum.splits)

lemma for_loop_upt:
  assumes "a \<le> b" and "I a s"
    and step: "\<And>i t. a \<le> i \<Longrightarrow> i < b \<Longrightarrow> I i t \<Longrightarrow> \<exists>t'. body i t = Inr t' \<and> I (Suc i) t'"
  shows "\<exists>s'. for_loop [a..<b] body s = Inr s' \<and> I b s'"
  using assms(1) step
proof (induction b)
  case 0
  with assms(2) show ?case by simp
next
  case (Suc b)
  show ?case
  proof (cases "a = Suc b")
    case True
    with assms(2) show ?thesis by simp
  next
    case False
    with Suc.prems have ab: "a \<le> b" by simp
    have "\<exists>s'. for_loop [a..<b] body s = Inr s' \<and> I b s'"
      by (rule Suc.IH [OF ab]) (use Suc.prems(2) in simp)
    then obtain s1 where s1: "for_loop [a..<b] body s = Inr s1" "I b s1" by blast
    from Suc.prems(2) [OF ab _ s1(2)] obtain s2 where s2: "body b s1 = Inr s2" "I (Suc b) s2"
      by auto
    from ab have "[a..<Suc b] = [a..<b] @ [b]" by simp
    with s1 s2 show ?thesis by (simp add: for_loop_append)
  qed
qed

definition wf_matrix :: "nat \<Rightarrow> matrix \<Rightarrow> bool" where
  "wf_matrix k A =
     (length A = k \<and> (\<forall>i<k. length (A ! i) = Suc k \<and> (\<forall>j\<le>k. reduced (A ! i ! j))))"

definition entry :: "matrix \<Rightarrow> nat \<Rightarrow> nat \<Rightarrow> rat" where
  "entry A i j = to_rat (A ! i ! j)"

lemma wf_matrix_reduced: "wf_matrix k A \<Longrightarrow> i < k \<Longrightarrow> j \<le> k \<Longrightarrow> reduced (A ! i ! j)"
  by (simp add: wf_matrix_def)

lemma wf_set_entry:
  "wf_matrix k A \<Longrightarrow> i < k \<Longrightarrow> j \<le> k \<Longrightarrow> reduced f \<Longrightarrow> wf_matrix k (set_entry A i j f)"
  by (auto simp: wf_matrix_def set_entry_def nth_list_update)

lemma entry_set_entry:
  "wf_matrix k A \<Longrightarrow> i < k \<Longrightarrow> j \<le> k \<Longrightarrow> i' < k \<Longrightarrow> j' \<le> k \<Longrightarrow>
   entry (set_entry A i j f) i' j' = (if i' = i \<and> j' = j then to_rat f else entry A i' j')"
  by (auto simp: wf_matrix_def set_entry_def entry_def nth_list_update)

lemma normalize_row_correct:
  assumes wf: "wf_matrix k A" and row: "row < k" and col: "col \<le> k"
    and p: "reduced pivot" "num pivot \<noteq> 0"
  shows "\<exists>A'. normalize_row k col row pivot A = Inr A' \<and> wf_matrix k A' \<and>
           (\<forall>i<k. \<forall>j\<le>k. entry A' i j =
              (if i = row \<and> col \<le> j then entry A i j / to_rat pivot else entry A i j))"
proof -
  define I where "I c B \<longleftrightarrow> wf_matrix k B \<and>
      (\<forall>i<k. \<forall>j\<le>k. entry B i j =
         (if i = row \<and> col \<le> j \<and> j < c then entry A i j / to_rat pivot else entry A i j))"
    for c B
  have "\<exists>A'. for_loop [col..<Suc k] (\<lambda>c A.
       and_then (Frac_div (A ! row ! c) pivot) (\<lambda>f. Inr (set_entry A row c f))) A = Inr A' \<and> I (Suc k) A'"
  proof (rule for_loop_upt)
    show "col \<le> Suc k" using col by simp
    show "I col A" using wf by (simp add: I_def)
  next
    fix c B
    assume c: "col \<le> c" "c < Suc k" and B: "I c B"
    then have wfB: "wf_matrix k B" by (simp add: I_def)
    from c have ck: "c \<le> k" by simp
    from wfB row ck have "reduced (B ! row ! c)" by (rule wf_matrix_reduced)
    from Frac_div_to_rat [OF this p] obtain f
      where f: "Frac_div (B ! row ! c) pivot = Inr f" "reduced f"
        "to_rat f = to_rat (B ! row ! c) / to_rat pivot"
      by blast
    from B c row have e: "entry B row c = entry A row c" by (simp add: I_def)
    have "I (Suc c) (set_entry B row c f)"
      unfolding I_def
    proof (intro conjI allI impI)
      show "wf_matrix k (set_entry B row c f)"
        using wfB row ck f(2) by (rule wf_set_entry)
    next
      fix i j
      assume ij: "i < k" "j \<le> k"
      from B ij have "entry B i j =
         (if i = row \<and> col \<le> j \<and> j < c then entry A i j / to_rat pivot else entry A i j)"
        by (simp add: I_def)
      then show "entry (set_entry B row c f) i j =
         (if i = row \<and> col \<le> j \<and> j < Suc c then entry A i j / to_rat pivot else entry A i j)"
        using entry_set_entry [OF wfB row ck ij] f(3) e c
        by (auto simp: entry_def less_Suc_eq)
    qed
    with f(1) show "\<exists>t'. and_then (Frac_div (B ! row ! c) pivot) (\<lambda>f. Inr (set_entry B row c f)) = Inr t'
        \<and> I (Suc c) t'"
      by simp
  qed
  then show ?thesis
    unfolding normalize_row_def I_def by (auto simp: less_Suc_eq_le)
qed

definition subtract_row :: "nat \<Rightarrow> nat \<Rightarrow> nat \<Rightarrow> nat \<Rightarrow> Frac \<Rightarrow> matrix \<Rightarrow> error + matrix" where
  "subtract_row k col row r factor A =
     for_loop [col..<Suc k] (\<lambda>c A.
       and_then (Frac_mul factor (A ! row ! c)) (\<lambda>p.
       and_then (Frac_sub (A ! r ! c) p) (\<lambda>f. Inr (set_entry A r c f)))) A"

lemma subtract_row_correct:
  assumes wf: "wf_matrix k A" and row: "row < k" and r: "r < k" "r \<noteq> row" and col: "col \<le> k"
    and fa: "reduced factor"
  shows "\<exists>A'. subtract_row k col row r factor A = Inr A' \<and> wf_matrix k A' \<and>
           (\<forall>i<k. \<forall>j\<le>k. entry A' i j =
              (if i = r \<and> col \<le> j then entry A i j - to_rat factor * entry A row j
               else entry A i j))"
proof -
  define I where "I c B \<longleftrightarrow> wf_matrix k B \<and>
      (\<forall>i<k. \<forall>j\<le>k. entry B i j =
         (if i = r \<and> col \<le> j \<and> j < c then entry A i j - to_rat factor * entry A row j
          else entry A i j))"
    for c B
  have "\<exists>A'. for_loop [col..<Suc k] (\<lambda>c A.
       and_then (Frac_mul factor (A ! row ! c)) (\<lambda>p.
       and_then (Frac_sub (A ! r ! c) p) (\<lambda>f. Inr (set_entry A r c f)))) A = Inr A' \<and> I (Suc k) A'"
  proof (rule for_loop_upt)
    show "col \<le> Suc k" using col by simp
    show "I col A" using wf by (simp add: I_def)
  next
    fix c B
    assume c: "col \<le> c" "c < Suc k" and B: "I c B"
    then have wfB: "wf_matrix k B" by (simp add: I_def)
    from c have ck: "c \<le> k" by simp
    from wfB row ck have rr: "reduced (B ! row ! c)" by (rule wf_matrix_reduced)
    from wfB r(1) ck have rc: "reduced (B ! r ! c)" by (rule wf_matrix_reduced)
    from Frac_mul_to_rat [OF fa rr] obtain p
      where p: "Frac_mul factor (B ! row ! c) = Inr p" "reduced p"
        "to_rat p = to_rat factor * to_rat (B ! row ! c)"
      by blast
    from Frac_sub_to_rat [OF rc p(2)] obtain f
      where f: "Frac_sub (B ! r ! c) p = Inr f" "reduced f"
        "to_rat f = to_rat (B ! r ! c) - to_rat p"
      by blast
    from B c row r have e: "entry B row c = entry A row c" "entry B r c = entry A r c"
      by (simp_all add: I_def)
    have "I (Suc c) (set_entry B r c f)"
      unfolding I_def
    proof (intro conjI allI impI)
      show "wf_matrix k (set_entry B r c f)"
        using wfB r(1) ck f(2) by (rule wf_set_entry)
    next
      fix i j
      assume ij: "i < k" "j \<le> k"
      from B ij have "entry B i j =
         (if i = r \<and> col \<le> j \<and> j < c then entry A i j - to_rat factor * entry A row j
          else entry A i j)"
        by (simp add: I_def)
      then show "entry (set_entry B r c f) i j =
         (if i = r \<and> col \<le> j \<and> j < Suc c then entry A i j - to_rat factor * entry A row j
          else entry A i j)"
        using entry_set_entry [OF wfB r(1) ck ij] f(3) p(3) e c
        by (auto simp: entry_def less_Suc_eq)
    qed
    with p(1) f(1) show "\<exists>t'. and_then (Frac_mul factor (B ! row ! c)) (\<lambda>p.
       and_then (Frac_sub (B ! r ! c) p) (\<lambda>f. Inr (set_entry B r c f))) = Inr t' \<and> I (Suc c) t'"
      by simp
  qed
  then show ?thesis
    unfolding subtract_row_def I_def by (auto simp: less_Suc_eq_le)
qed

lemma eliminate_rows_eq:
  "eliminate_rows k col row A =
     for_loop [0..<k] (\<lambda>r A.
       if r = row then Inr A
       else
         let factor = A ! r ! col in
         if num factor = 0 then Inr A
         else subtract_row k col row r factor A) A"
  unfolding eliminate_rows_def subtract_row_def by (rule refl)

lemma eliminate_rows_correct:
  assumes wf: "wf_matrix k A" and row: "row < k" and col: "col \<le> k"
  shows "\<exists>A'. eliminate_rows k col row A = Inr A' \<and> wf_matrix k A' \<and>
           (\<forall>i<k. \<forall>j\<le>k. entry A' i j =
              (if i \<noteq> row \<and> col \<le> j then entry A i j - entry A i col * entry A row j
               else entry A i j))"
proof -
  define I where "I r B \<longleftrightarrow> wf_matrix k B \<and>
      (\<forall>i<k. \<forall>j\<le>k. entry B i j =
         (if i \<noteq> row \<and> i < r \<and> col \<le> j then entry A i j - entry A i col * entry A row j
          else entry A i j))"
    for r B
  have "\<exists>A'. for_loop [0..<k] (\<lambda>r A.
       if r = row then Inr A
       else
         let factor = A ! r ! col in
         if num factor = 0 then Inr A
         else subtract_row k col row r factor A) A = Inr A' \<and> I k A'"
  proof (rule for_loop_upt)
    show "0 \<le> k" by simp
    show "I 0 A" using wf by (simp add: I_def)
  next
    fix r B
    assume r: "0 \<le> r" "r < k" and B: "I r B"
    then have wfB: "wf_matrix k B" by (simp add: I_def)
    from wfB r(2) col have rf: "reduced (B ! r ! col)" by (rule wf_matrix_reduced)
    from B r col have er: "\<forall>j\<le>k. entry B r j = entry A r j" by (simp add: I_def)
    from B row have erow: "\<forall>j\<le>k. entry B row j = entry A row j" by (simp add: I_def)
    show "\<exists>t'. (if r = row then Inr B
       else
         let factor = B ! r ! col in
         if num factor = 0 then Inr B
         else subtract_row k col row r factor B) = Inr t' \<and> I (Suc r) t'"
    proof (cases "r = row")
      case True
      with B show ?thesis by (auto simp: I_def less_Suc_eq)
    next
      case nrow: False
      show ?thesis
      proof (cases "num (B ! r ! col) = 0")
        case True
        with rf have "entry B r col = 0" by (simp add: entry_def to_rat_zero_iff)
        with er col have "entry A r col = 0" by simp
        with B True nrow show ?thesis by (auto simp: I_def less_Suc_eq Let_def)
      next
        case False
        from subtract_row_correct [OF wfB row r(2) nrow col rf] obtain B'
          where B': "subtract_row k col row r (B ! r ! col) B = Inr B'" "wf_matrix k B'"
            "\<forall>i<k. \<forall>j\<le>k. entry B' i j =
              (if i = r \<and> col \<le> j then entry B i j - to_rat (B ! r ! col) * entry B row j
               else entry B i j)"
          by blast
        have f: "to_rat (B ! r ! col) = entry A r col"
          using er col by (simp add: entry_def)
        have "I (Suc r) B'"
          unfolding I_def
        proof (intro conjI allI impI)
          show "wf_matrix k B'" by (rule B'(2))
        next
          fix i j
          assume ij: "i < k" "j \<le> k"
          from B ij have "entry B i j =
             (if i \<noteq> row \<and> i < r \<and> col \<le> j then entry A i j - entry A i col * entry A row j
              else entry A i j)"
            by (simp add: I_def)
          then show "entry B' i j =
             (if i \<noteq> row \<and> i < Suc r \<and> col \<le> j then entry A i j - entry A i col * entry A row j
              else entry A i j)"
            using B'(3) ij f er erow nrow by (auto simp: less_Suc_eq)
        qed
        with B'(1) False nrow show ?thesis by (simp add: Let_def)
      qed
    qed
  qed
  then show ?thesis
    unfolding eliminate_rows_eq I_def by auto
qed

definition dot :: "nat \<Rightarrow> (nat \<Rightarrow> nat \<Rightarrow> rat) \<Rightarrow> nat \<Rightarrow> (nat \<Rightarrow> rat) \<Rightarrow> rat" where
  "dot k M i w = (\<Sum>j\<le>k. M i j * w j)"

definition kernel_vec :: "nat \<Rightarrow> (nat \<Rightarrow> nat \<Rightarrow> rat) \<Rightarrow> (nat \<Rightarrow> rat) \<Rightarrow> bool" where
  "kernel_vec k M w = (\<forall>i<k. dot k M i w = 0)"

definition unit_cols :: "nat \<Rightarrow> nat \<Rightarrow> (nat \<Rightarrow> nat \<Rightarrow> rat) \<Rightarrow> bool" where
  "unit_cols k c M = (\<forall>i<k. \<forall>j<c. M i j = (if i = j then 1 else 0))"

lemma dot_cong: "(\<And>j. j \<le> k \<Longrightarrow> M i j = N i' j) \<Longrightarrow> dot k M i w = dot k N i' w"
  by (simp add: dot_def)

lemma dot_scaled:
  assumes "\<And>j. j \<le> k \<Longrightarrow> N i j = M i j / p"
  shows "dot k N i w = dot k M i w / p"
proof -
  have "dot k N i w = (\<Sum>j\<le>k. (M i j * w j) / p)"
    unfolding dot_def by (rule sum.cong) (simp_all add: assms)
  then show ?thesis by (simp add: dot_def sum_divide_distrib)
qed

lemma dot_reduced:
  assumes "\<And>j. j \<le> k \<Longrightarrow> E i j = N i j - f * N c j"
  shows "dot k E i w = dot k N i w - f * dot k N c w"
proof -
  have "dot k E i w = (\<Sum>j\<le>k. N i j * w j - f * (N c j * w j))"
    unfolding dot_def by (rule sum.cong) (simp_all add: assms algebra_simps)
  then show ?thesis by (simp add: dot_def sum_subtractf sum_distrib_left)
qed

lemma pivot_step:
  assumes uc: "unit_cols k c M" and c: "c < k" and sel: "c \<le> sel" "sel < k"
    and p: "M sel c \<noteq> 0"
    and S: "\<And>i j. i < k \<Longrightarrow> j \<le> k \<Longrightarrow>
              Ms i j = M (if i = c then sel else if i = sel then c else i) j"
    and N: "\<And>i j. i < k \<Longrightarrow> j \<le> k \<Longrightarrow>
              N i j = (if i = c \<and> c \<le> j then Ms i j / Ms c c else Ms i j)"
    and E: "\<And>i j. i < k \<Longrightarrow> j \<le> k \<Longrightarrow>
              E i j = (if i \<noteq> c \<and> c \<le> j then N i j - N i c * N c j else N i j)"
  shows "unit_cols k (Suc c) E" and "kernel_vec k E w \<longleftrightarrow> kernel_vec k M w"
proof -
  have pc: "Ms c c = M sel c" using S [of c c] c by simp
  have ucs: "Ms i j = (if i = j then 1 else 0)" if "i < k" "j < c" for i j
    using that S [of i j] uc sel c by (auto simp: unit_cols_def)
  have N': "N i j = (if i = c then Ms i j / Ms c c else Ms i j)" if "i < k" "j \<le> k" for i j
    using that N [of i j] ucs [of c j] c by (cases "c \<le> j") auto
  have Nc: "N c j = 0" if "j < c" for j
    using that N' [of c j] ucs [of c j] c by simp
  have E': "E i j = (if i \<noteq> c then N i j - N i c * N c j else N i j)" if "i < k" "j \<le> k" for i j
    using that E [of i j] Nc [of j] by (cases "c \<le> j") auto
  show "unit_cols k (Suc c) E"
    unfolding unit_cols_def
  proof (intro allI impI)
    fix i j
    assume ij: "i < k" "j < Suc c"
    with c have jk: "j \<le> k" by simp
    show "E i j = (if i = j then 1 else 0)"
    proof (cases "j = c")
      case True
      with ij c p pc show ?thesis
        using E' [of i c] N' [of c c] by auto
    next
      case False
      with ij have jc: "j < c" by simp
      with ij jk c show ?thesis
        using E' [of i j] N' [of i j] Nc [of j] ucs [of i j] by auto
    qed
  qed
  have dN: "dot k N i w = (if i = c then dot k Ms c w / Ms c c else dot k Ms i w)"
    if "i < k" for i
  proof (cases "i = c")
    case True
    have "dot k N c w = dot k Ms c w / Ms c c"
      by (rule dot_scaled) (use N' [of c] c in simp)
    with True show ?thesis by simp
  next
    case False
    have "dot k N i w = dot k Ms i w"
      by (rule dot_cong) (use N' [of i] that False in simp)
    with False show ?thesis by simp
  qed
  have dE: "dot k E i w = (if i \<noteq> c then dot k N i w - N i c * dot k N c w else dot k N c w)"
    if "i < k" for i
  proof (cases "i = c")
    case True
    have "dot k E c w = dot k N c w"
      by (rule dot_cong) (use E' [of c] c in simp)
    with True show ?thesis by simp
  next
    case False
    have "dot k E i w = dot k N i w - N i c * dot k N c w"
      by (rule dot_reduced) (use E' [of i] that False in simp)
    with False show ?thesis by simp
  qed
  have dS: "dot k Ms i w = dot k M (if i = c then sel else if i = sel then c else i) w"
    if "i < k" for i
    by (rule dot_cong) (use S [of i] that in simp)
  have kN: "kernel_vec k E w \<longleftrightarrow> kernel_vec k N w"
  proof
    assume a: "kernel_vec k E w"
    with c have "dot k E c w = 0" by (simp add: kernel_vec_def)
    with dE [OF c] have z: "dot k N c w = 0" by simp
    show "kernel_vec k N w"
      unfolding kernel_vec_def
    proof (intro allI impI)
      fix i assume i: "i < k"
      with a have "dot k E i w = 0" by (simp add: kernel_vec_def)
      with dE [OF i] z show "dot k N i w = 0" by (cases "i = c") simp_all
    qed
  next
    assume a: "kernel_vec k N w"
    then show "kernel_vec k E w"
      using dE c by (simp add: kernel_vec_def)
  qed
  have kS: "kernel_vec k N w \<longleftrightarrow> kernel_vec k Ms w"
    unfolding kernel_vec_def using dN c p pc by auto
  have kM: "kernel_vec k Ms w \<longleftrightarrow> kernel_vec k M w"
  proof
    assume a: "kernel_vec k Ms w"
    show "kernel_vec k M w"
      unfolding kernel_vec_def
    proof (intro allI impI)
      fix i assume i: "i < k"
      let ?i = "if i = c then sel else if i = sel then c else i"
      from i c sel have "?i < k" by simp
      with a have "dot k Ms ?i w = 0" by (simp add: kernel_vec_def)
      moreover have "dot k Ms ?i w = dot k M i w"
        using dS [of ?i] i c sel by auto
      ultimately show "dot k M i w = 0" by simp
    qed
  next
    assume a: "kernel_vec k M w"
    show "kernel_vec k Ms w"
      unfolding kernel_vec_def
    proof (intro allI impI)
      fix i assume i: "i < k"
      let ?i = "if i = c then sel else if i = sel then c else i"
      from i c sel have "?i < k" by simp
      with a have "dot k M ?i w = 0" by (simp add: kernel_vec_def)
      with dS [OF i] show "dot k Ms i w = 0" by simp
    qed
  qed
  from kN kS kM show "kernel_vec k E w \<longleftrightarrow> kernel_vec k M w" by simp
qed

declare elimination.simps [simp del]

lemma no_pivot_kernel:
  assumes uc: "unit_cols k c M" and c: "c < k"
    and z: "\<And>r. c \<le> r \<Longrightarrow> r < k \<Longrightarrow> M r c = 0"
  shows "kernel_vec k M (\<lambda>j. if j < c then M j c else if j = c then - 1 else 0)"
  unfolding kernel_vec_def
proof (intro allI impI)
  fix i assume i: "i < k"
  let ?w = "\<lambda>j. if j < c then M j c else if j = c then - 1 else 0"
  have "dot k M i ?w =
      (\<Sum>j\<le>k. (if j = i then (if i < c then M i c else 0) else 0) + (if j = c then - M i c else 0))"
    unfolding dot_def
  proof (rule sum.cong)
    fix j assume "j \<in> {..k}"
    show "M i j * ?w j =
      (if j = i then (if i < c then M i c else 0) else 0) + (if j = c then - M i c else 0)"
    proof (cases "j < c")
      case True
      with uc i have "M i j = (if i = j then 1 else 0)" by (simp add: unit_cols_def)
      with True show ?thesis by auto
    next
      case False
      then show ?thesis by auto
    qed
  qed simp
  also have "\<dots> = (if i < c then M i c else 0) - M i c"
    using i c by (simp add: sum.distrib)
  also have "\<dots> = 0"
    using z [of i] i by simp
  finally show "dot k M i ?w = 0" .
qed

lemma find_pivot_cases:
  assumes "row < k"
  shows "(num (A ! find_pivot A k row col ! col) \<noteq> 0 \<and>
            row \<le> find_pivot A k row col \<and> find_pivot A k row col < k) \<or>
         (find_pivot A k row col = row \<and> (\<forall>r. row \<le> r \<and> r < k \<longrightarrow> num (A ! r ! col) = 0))"
proof (cases "find (\<lambda>r. num (A ! r ! col) \<noteq> 0) [row..<k]")
  case None
  then have "find_pivot A k row col = row" by (simp add: find_pivot_def)
  moreover from None have "\<forall>r. row \<le> r \<and> r < k \<longrightarrow> num (A ! r ! col) = 0"
    by (auto simp: find_None_iff)
  ultimately show ?thesis by blast
next
  case (Some r)
  then have "num (A ! r ! col) \<noteq> 0 \<and> r \<in> set [row..<k]"
    by (auto simp: find_Some_iff)
  with Some show ?thesis by (simp add: find_pivot_def)
qed

lemma swap_rows:
  assumes wf: "wf_matrix k A" and s: "sel < k" and r: "row < k"
  shows "wf_matrix k (A[sel := A ! row, row := A ! sel])"
    and "\<And>i j. i < k \<Longrightarrow>
       entry (A[sel := A ! row, row := A ! sel]) i j =
       entry A (if i = row then sel else if i = sel then row else i) j"
  using assms by (auto simp: wf_matrix_def entry_def nth_list_update)

lemma elimination_correct:
  assumes ns: "\<And>w. kernel_vec k M0 w \<Longrightarrow> w k = 0 \<Longrightarrow> \<forall>j<k. w j = 0"
  shows "wf_matrix k A \<Longrightarrow> row = col \<Longrightarrow> col \<le> k \<Longrightarrow> unit_cols k col (entry A) \<Longrightarrow>
     (\<forall>w. kernel_vec k (entry A) w \<longleftrightarrow> kernel_vec k M0 w) \<Longrightarrow>
     \<exists>A'. elimination k col row A = Inr (Some A') \<and> wf_matrix k A' \<and>
        unit_cols k k (entry A') \<and> (\<forall>w. kernel_vec k (entry A') w \<longleftrightarrow> kernel_vec k M0 w)"
proof (induction "k - col" arbitrary: col row A)
  case 0
  then have "col = k" by simp
  with 0 show ?case by (simp add: elimination.simps)
next
  case (Suc n)
  from Suc.hyps(2) have c: "col < k" by simp
  note wf = Suc.prems(1) and rc = Suc.prems(2) and uc = Suc.prems(4) and ker = Suc.prems(5)
  define sel where "sel = find_pivot A k col col"
  have piv: "num (A ! sel ! col) \<noteq> 0 \<and> col \<le> sel \<and> sel < k"
  proof (rule ccontr)
    assume "\<not> ?thesis"
    with find_pivot_cases [OF c, of A col] have "\<forall>r. col \<le> r \<and> r < k \<longrightarrow> num (A ! r ! col) = 0"
      by (auto simp: sel_def)
    then have z: "entry A r col = 0" if "col \<le> r" "r < k" for r
      using that wf_matrix_reduced [OF wf that(2), of col] c
      by (simp add: entry_def to_rat_zero_iff)
    let ?w = "\<lambda>j. if j < col then entry A j col else if j = col then - 1 else 0"
    have "kernel_vec k (entry A) ?w"
      using uc c z by (rule no_pivot_kernel)
    with ker have "kernel_vec k M0 ?w" by blast
    from ns [OF this] c have "?w col = 0" by auto
    then show False by simp
  qed
  then have sel: "col \<le> sel" "sel < k" and nz: "num (A ! sel ! col) \<noteq> 0" by simp_all
  define A1 where "A1 = (if sel \<noteq> col then A[sel := A ! col, col := A ! sel] else A)"
  have wf1: "wf_matrix k A1"
    using swap_rows(1) [OF wf sel(2) c] wf by (simp add: A1_def)
  have e1: "entry A1 i j = entry A (if i = col then sel else if i = sel then col else i) j"
    if "i < k" for i j
    using swap_rows(2) [OF wf sel(2) c that] by (auto simp: A1_def)
  define pivot where "pivot = A1 ! col ! col"
  have pr: "reduced pivot" unfolding pivot_def using wf1 c by (simp add: wf_matrix_reduced)
  have p0: "entry A sel col \<noteq> 0"
    using nz wf_matrix_reduced [OF wf sel(2), of col] c by (simp add: entry_def to_rat_zero_iff)
  have tp: "to_rat pivot = entry A1 col col" by (simp add: pivot_def entry_def)
  have "entry A1 col col = entry A sel col" using e1 [OF c] by simp
  with p0 tp have "to_rat pivot \<noteq> 0" by simp
  with pr have pn: "num pivot \<noteq> 0" by (simp add: to_rat_zero_iff)
  from normalize_row_correct [OF wf1 c _ pr pn, of col] c obtain A2
    where A2: "normalize_row k col col pivot A1 = Inr A2" "wf_matrix k A2"
      "\<forall>i<k. \<forall>j\<le>k. entry A2 i j =
         (if i = col \<and> col \<le> j then entry A1 i j / to_rat pivot else entry A1 i j)"
    by auto
  from eliminate_rows_correct [OF A2(2) c, of col] c obtain A3
    where A3: "eliminate_rows k col col A2 = Inr A3" "wf_matrix k A3"
      "\<forall>i<k. \<forall>j\<le>k. entry A3 i j =
         (if i \<noteq> col \<and> col \<le> j then entry A2 i j - entry A2 i col * entry A2 col j
          else entry A2 i j)"
    by auto
  have step: "unit_cols k (Suc col) (entry A3)"
    "\<And>w. kernel_vec k (entry A3) w \<longleftrightarrow> kernel_vec k (entry A) w"
    using pivot_step [OF uc c sel p0, of "entry A1" "entry A2" "entry A3"] e1 A2(3) A3(3) tp
    by simp_all
  have "elimination k col col A =
      (case normalize_row k col col pivot A1 of
         Inl e \<Rightarrow> Inl e
       | Inr A2 \<Rightarrow>
           (case eliminate_rows k col col A2 of
              Inl e \<Rightarrow> Inl e
            | Inr A3 \<Rightarrow> elimination k (Suc col) (Suc col) A3))"
    using c nz [unfolded sel_def]
    by (subst elimination.simps) (simp add: Let_def pivot_def A1_def sel_def)
  with A2(1) A3(1) rc
  have unfold: "elimination k col row A = elimination k (Suc col) (Suc row) A3"
    by simp
  have "\<exists>A'. elimination k (Suc col) (Suc row) A3 = Inr (Some A') \<and> wf_matrix k A' \<and>
        unit_cols k k (entry A') \<and> (\<forall>w. kernel_vec k (entry A') w \<longleftrightarrow> kernel_vec k M0 w)"
  proof (rule Suc.hyps(1))
    show "n = k - Suc col" using Suc.hyps(2) by simp
    show "wf_matrix k A3" by (rule A3(2))
    show "Suc row = Suc col" using rc by simp
    show "Suc col \<le> k" using c by simp
    show "unit_cols k (Suc col) (entry A3)" by (rule step(1))
    show "\<forall>w. kernel_vec k (entry A3) w \<longleftrightarrow> kernel_vec k M0 w"
      using step(2) ker by simp
  qed
  with unfold show ?case by simp
qed

lemma Frac_int: "Frac n 1 = Inr \<lparr>num = n, den = 1\<rparr>"
  using Frac_eq [of 1 n] by simp

lemma reduced_int: "reduced \<lparr>num = n, den = 1\<rparr>"
  by (simp add: reduced_def)

lemma to_rat_int: "to_rat \<lparr>num = n, den = 1\<rparr> = of_int n"
  by (simp add: to_rat_def)

lemma wf_replicate: "reduced z \<Longrightarrow> wf_matrix k (replicate k (replicate (k + 1) z))"
  by (simp add: wf_matrix_def del: replicate.simps)

lemma build_matrix_correct:
  assumes len: "length xs \<le> length ys"
  shows "\<exists>A. build_matrix xs ys = Inr A \<and> wf_matrix (length xs) A \<and>
           (\<forall>i<length xs. (\<forall>j<length xs. entry A i j = of_int (xs ! i) ^ j) \<and>
               entry A i (length xs) = of_int (ys ! i))"
proof -
  define k where "k = length xs"
  define I where "I i B \<longleftrightarrow> wf_matrix k B \<and>
      (\<forall>i'<i. (\<forall>j<k. entry B i' j = of_int (xs ! i') ^ j) \<and> entry B i' k = of_int (ys ! i'))"
    for i B
  let ?inner = "\<lambda>i. (\<lambda>j (A, power).
             and_then (Frac power 1) (\<lambda>f. Inr (set_entry A i j f, power * xs ! i)))"
  let ?body = "\<lambda>i A.
        and_then (for_loop [0..<k] (?inner i) (A, 1))
          (\<lambda>(A, power).
             if i < length ys
             then and_then (Frac (ys ! i) 1) (\<lambda>f. Inr (set_entry A i k f))
             else Inl undefined_behaviour)"
  have "\<exists>A. for_loop [0..<k] ?body (replicate k (replicate (k + 1) \<lparr>num = 0, den = 1\<rparr>)) = Inr A \<and> I k A"
  proof (rule for_loop_upt)
    show "0 \<le> k" by simp
    have "wf_matrix k (replicate k (replicate (k + 1) \<lparr>num = 0, den = 1\<rparr>))"
      by (rule wf_replicate) (rule reduced_int)
    then show "I 0 (replicate k (replicate (k + 1) \<lparr>num = 0, den = 1\<rparr>))"
      by (simp only: I_def) simp
  next
    fix i B
    assume i: "0 \<le> i" "i < k" and B: "I i B"
    then have wfB: "wf_matrix k B" by (simp add: I_def)
    define J where "J j s \<longleftrightarrow> (case s of (C, pw) \<Rightarrow>
        wf_matrix k C \<and> pw = xs ! i ^ j \<and>
        (\<forall>i'<k. i' \<noteq> i \<longrightarrow> (\<forall>j'\<le>k. entry C i' j' = entry B i' j')) \<and>
        (\<forall>j'<j. entry C i j' = of_int (xs ! i) ^ j'))" for j s
    have "\<exists>s'. for_loop [0..<k] (?inner i) (B, 1) = Inr s' \<and> J k s'"
    proof (rule for_loop_upt)
      show "0 \<le> k" by simp
      show "J 0 (B, 1)" using wfB by (simp add: J_def)
    next
      fix j s
      assume j: "0 \<le> j" "j < k" and s: "J j s"
      obtain C pw where sp: "s = (C, pw)" by (cases s)
      from s sp have wfC: "wf_matrix k C" and pw: "pw = xs ! i ^ j" by (simp_all add: J_def)
      from j have jk: "j \<le> k" by simp
      have wf': "wf_matrix k (set_entry C i j \<lparr>num = pw, den = 1\<rparr>)"
        using wfC i(2) jk reduced_int by (rule wf_set_entry)
      have "J (Suc j) (set_entry C i j \<lparr>num = pw, den = 1\<rparr>, pw * xs ! i)"
        unfolding J_def
        using s sp wf' pw i j
        by (auto simp: J_def entry_set_entry [OF wfC i(2) jk] to_rat_int less_Suc_eq)
      then show "\<exists>t'. ?inner i j s = Inr t' \<and> J (Suc j) t'"
        by (simp add: sp Frac_int)
    qed
    then obtain C pw where C: "for_loop [0..<k] (?inner i) (B, 1) = Inr (C, pw)"
      and JC: "J k (C, pw)" by auto
    from JC have wfC: "wf_matrix k C" by (simp add: J_def)
    from i len have iy: "i < length ys" by (simp add: k_def)
    have wf': "wf_matrix k (set_entry C i k \<lparr>num = ys ! i, den = 1\<rparr>)"
      using wfC i(2) _ reduced_int by (rule wf_set_entry) simp
    have upd: "entry (set_entry C i k f) i' j =
        (if i' = i \<and> j = k then to_rat f else entry C i' j)" if "i' < k" "j \<le> k" for i' j f
      using entry_set_entry [OF wfC i(2) order_refl that] .
    have "I (Suc i) (set_entry C i k \<lparr>num = ys ! i, den = 1\<rparr>)"
      unfolding I_def
    proof (intro conjI allI impI)
      show "wf_matrix k (set_entry C i k \<lparr>num = ys ! i, den = 1\<rparr>)" by (rule wf')
    next
      fix i' j
      assume a: "i' < Suc i" "j < k"
      with i have i'k: "i' < k" by simp
      from a have jk: "j \<le> k" by simp
      from upd [OF i'k jk] a
      have u: "entry (set_entry C i k \<lparr>num = ys ! i, den = 1\<rparr>) i' j = entry C i' j"
        by simp
      show "entry (set_entry C i k \<lparr>num = ys ! i, den = 1\<rparr>) i' j = of_int (xs ! i') ^ j"
      proof (cases "i' = i")
        case True
        with JC a u show ?thesis by (simp add: J_def)
      next
        case False
        with a have "i' < i" by simp
        with B a JC False i'k jk u show ?thesis by (simp add: I_def J_def)
      qed
    next
      fix i'
      assume a: "i' < Suc i"
      with i have i'k: "i' < k" by simp
      from upd [OF i'k order_refl]
      have u: "entry (set_entry C i k \<lparr>num = ys ! i, den = 1\<rparr>) i' k =
          (if i' = i then of_int (ys ! i) else entry C i' k)"
        by (simp add: to_rat_int)
      show "entry (set_entry C i k \<lparr>num = ys ! i, den = 1\<rparr>) i' k = of_int (ys ! i')"
      proof (cases "i' = i")
        case True
        with u show ?thesis by simp
      next
        case False
        with a have "i' < i" by simp
        with B JC False i'k u show ?thesis by (simp add: I_def J_def)
      qed
    qed
    with C iy show "\<exists>t'. ?body i B = Inr t' \<and> I (Suc i) t'"
      by (simp add: Frac_int)
  qed
  then show ?thesis
    unfolding build_matrix_def I_def k_def [symmetric] by (simp add: Let_def Frac_int)
qed

fun peval :: "rat list \<Rightarrow> rat \<Rightarrow> rat" where
  "peval [] x = 0"
| "peval (c # cs) x = c + x * peval cs x"

fun pquot :: "rat \<Rightarrow> rat list \<Rightarrow> rat list" where
  "pquot a [] = []"
| "pquot a [c] = []"
| "pquot a (c # cs) = peval cs a # pquot a cs"

lemma peval_factor: "peval cs x = peval cs a + (x - a) * peval (pquot a cs) x"
proof (induction a cs rule: pquot.induct)
  case (3 a c d ds)
  have "peval (c # d # ds) x = c + x * peval (d # ds) x" by simp
  also have "\<dots> = c + x * (peval (d # ds) a + (x - a) * peval (pquot a (d # ds)) x)"
    using 3 by simp
  also have "\<dots> = peval (c # d # ds) a + (x - a) * peval (pquot a (c # d # ds)) x"
    by (simp add: algebra_simps)
  finally show ?case .
qed simp_all

lemma length_pquot: "length (pquot a cs) = length cs - 1"
  by (induction a cs rule: pquot.induct) simp_all

lemma pquot_zero:
  "\<forall>c\<in>set (pquot a cs). c = 0 \<Longrightarrow> peval cs a = 0 \<Longrightarrow> \<forall>c\<in>set cs. c = 0"
proof (induction a cs rule: pquot.induct)
  case (3 a c d ds)
  from "3.prems"(1) have p: "peval (d # ds) a = 0" and q: "\<forall>c\<in>set (pquot a (d # ds)). c = 0"
    by simp_all
  from "3.IH" [OF q p] have z: "\<forall>c\<in>set (d # ds). c = 0" .
  from "3.prems"(2) p have "c = 0" by simp
  with z show ?case by simp
qed simp_all

lemma roots_force_zero:
  "distinct xs \<Longrightarrow> length cs \<le> length xs \<Longrightarrow> \<forall>x\<in>set xs. peval cs x = 0 \<Longrightarrow>
   \<forall>c\<in>set cs. c = 0"
proof (induction xs arbitrary: cs)
  case Nil
  then show ?case by simp
next
  case (Cons a xs)
  have "\<forall>c\<in>set (pquot a cs). c = 0"
  proof (rule Cons.IH)
    show "distinct xs" using Cons.prems(1) by simp
    show "length (pquot a cs) \<le> length xs"
      using Cons.prems(2) by (simp add: length_pquot)
    show "\<forall>x\<in>set xs. peval (pquot a cs) x = 0"
    proof
      fix x assume x: "x \<in> set xs"
      with Cons.prems(1) have ne: "x \<noteq> a" by auto
      from x Cons.prems(3) have "peval cs x = 0" "peval cs a = 0" by simp_all
      with peval_factor [of cs x a] have "(x - a) * peval (pquot a cs) x = 0" by simp
      with ne show "peval (pquot a cs) x = 0" by simp
    qed
  qed
  moreover from Cons.prems(3) have "peval cs a = 0" by simp
  ultimately show ?case by (rule pquot_zero)
qed

lemma peval_sum: "peval (map w [0..<k]) x = (\<Sum>j<k. w j * x ^ j)"
proof (induction k arbitrary: w)
  case 0
  show ?case by simp
next
  case (Suc k)
  have "[0..<Suc k] = 0 # map Suc [0..<k]"
    by (simp add: upt_conv_Cons map_Suc_upt del: upt_Suc)
  then have "peval (map w [0..<Suc k]) x = w 0 + x * peval (map (\<lambda>j. w (Suc j)) [0..<k]) x"
    by (simp add: comp_def del: upt_Suc)
  also have "\<dots> = w 0 + x * (\<Sum>j<k. w (Suc j) * x ^ j)"
    by (simp add: Suc.IH)
  also have "\<dots> = (\<Sum>j<Suc k. w j * x ^ j)"
    by (simp add: sum.lessThan_Suc_shift sum_distrib_left algebra_simps del: sum.lessThan_Suc)
  finally show ?case .
qed

lemma vandermonde_kernel:
  assumes d: "distinct xs" and k: "k = length xs"
    and M: "\<And>i j. i < k \<Longrightarrow> j < k \<Longrightarrow> M i j = of_int (xs ! i) ^ j"
    and ker: "kernel_vec k M w" and wk: "w k = 0"
  shows "\<forall>j<k. w j = 0"
proof -
  have "\<forall>c\<in>set (map w [0..<k]). c = 0"
  proof (rule roots_force_zero)
    show "distinct (map rat_of_int xs)"
      using d by (simp add: distinct_map inj_on_def)
    show "length (map w [0..<k]) \<le> length (map rat_of_int xs)"
      by (simp add: k)
    show "\<forall>x\<in>set (map rat_of_int xs). peval (map w [0..<k]) x = 0"
    proof
      fix x assume "x \<in> set (map rat_of_int xs)"
      then obtain i where i: "i < k" "x = of_int (xs ! i)"
        by (auto simp: k in_set_conv_nth)
      from ker i have "dot k M i w = 0" by (simp add: kernel_vec_def)
      moreover have "dot k M i w = (\<Sum>j<k. M i j * w j) + M i k * w k"
        by (simp add: dot_def lessThan_Suc_atMost [symmetric])
      moreover have "(\<Sum>j<k. M i j * w j) = (\<Sum>j<k. w j * x ^ j)"
        by (rule sum.cong) (simp_all add: M i)
      ultimately show "peval (map w [0..<k]) x = 0"
        using wk by (simp add: peval_sum)
    qed
  qed
  then show ?thesis by simp
qed

lemma collect_solution_eq: "collect_solution k A = Inr (map (\<lambda>i. A ! i ! k) [0..<k])"
proof -
  define I where "I i out \<longleftrightarrow> length out = k \<and> (\<forall>i'<i. out ! i' = A ! i' ! k)"
    for i and out :: "Frac list"
  have "\<exists>out. for_loop [0..<k] (\<lambda>i out. Inr (out[i := A ! i ! k]))
      (replicate k \<lparr>num = 0, den = 1\<rparr>) = Inr out \<and> I k out"
  proof (rule for_loop_upt)
    show "0 \<le> k" by simp
    show "I 0 (replicate k \<lparr>num = 0, den = 1\<rparr>)" by (simp add: I_def)
  next
    fix i t
    assume "0 \<le> i" "i < k" "I i t"
    then have "I (Suc i) (t[i := A ! i ! k])"
      by (auto simp: I_def nth_list_update less_Suc_eq)
    then show "\<exists>t'. Inr (t[i := A ! i ! k]) = Inr t' \<and> I (Suc i) t'" by simp
  qed
  then obtain out where out: "for_loop [0..<k] (\<lambda>i out. Inr (out[i := A ! i ! k]))
      (replicate k \<lparr>num = 0, den = 1\<rparr>) = Inr out" "I k out"
    by blast
  from out(2) have "out = map (\<lambda>i. A ! i ! k) [0..<k]"
    by (simp add: I_def list_eq_iff_nth_eq)
  with out(1) show ?thesis
    by (simp add: collect_solution_def Frac_int)
qed

text \<open>
  The elimination on the matrix of pairwise distinct x-coordinates: it does not throw, it
  finds a pivot in every column, and the last column of its result is the one rational
  solution of the Vandermonde system.
\<close>

lemma elimination_vandermonde:
  assumes d: "distinct xs" and len: "length xs \<le> length ys"
  shows "\<exists>A A'. build_matrix xs ys = Inr A \<and> elimination (length xs) 0 0 A = Inr (Some A') \<and>
     wf_matrix (length xs) A' \<and>
     (\<forall>i<length xs. (\<Sum>j<length xs. entry A' j (length xs) * of_int (xs ! i) ^ j) = of_int (ys ! i)) \<and>
     (\<forall>c. (\<forall>i<length xs. (\<Sum>j<length xs. c j * of_int (xs ! i) ^ j) = of_int (ys ! i)) \<longrightarrow>
          (\<forall>j<length xs. entry A' j (length xs) = c j))"
proof -
  define k where "k = length xs"
  from build_matrix_correct [OF len] obtain A
    where A: "build_matrix xs ys = Inr A" "wf_matrix k A"
      and Ax: "\<And>i j. i < k \<Longrightarrow> j < k \<Longrightarrow> entry A i j = of_int (xs ! i) ^ j"
      and Ay: "\<And>i. i < k \<Longrightarrow> entry A i k = of_int (ys ! i)"
    unfolding k_def by blast
  have ns: "\<forall>j<k. w j = 0" if "kernel_vec k (entry A) w" "w k = 0" for w
    using d k_def Ax that by (rule vandermonde_kernel)
  have "\<exists>A'. elimination k 0 0 A = Inr (Some A') \<and> wf_matrix k A' \<and>
        unit_cols k k (entry A') \<and> (\<forall>w. kernel_vec k (entry A') w \<longleftrightarrow> kernel_vec k (entry A) w)"
    by (rule elimination_correct [where ?M0.0 = "entry A"])
      (use ns A(2) in \<open>simp_all add: unit_cols_def\<close>)
  then obtain A' where A': "elimination k 0 0 A = Inr (Some A')" "wf_matrix k A'"
    and uc: "unit_cols k k (entry A')"
    and ker: "\<And>w. kernel_vec k (entry A') w \<longleftrightarrow> kernel_vec k (entry A) w"
    by blast
  have dA: "dot k (entry A) i w = (\<Sum>j<k. w j * of_int (xs ! i) ^ j) + of_int (ys ! i) * w k"
    if "i < k" for i w
  proof -
    have "dot k (entry A) i w = (\<Sum>j<k. entry A i j * w j) + entry A i k * w k"
      by (simp add: dot_def lessThan_Suc_atMost [symmetric])
    moreover have "(\<Sum>j<k. entry A i j * w j) = (\<Sum>j<k. w j * of_int (xs ! i) ^ j)"
      by (rule sum.cong) (simp_all add: Ax that)
    ultimately show ?thesis using Ay [OF that] by simp
  qed
  have dA': "dot k (entry A') i w = w i + entry A' i k * w k" if "i < k" for i w
  proof -
    have "dot k (entry A') i w = (\<Sum>j<k. entry A' i j * w j) + entry A' i k * w k"
      by (simp add: dot_def lessThan_Suc_atMost [symmetric])
    moreover have "(\<Sum>j<k. entry A' i j * w j) = (\<Sum>j<k. if j = i then w j else 0)"
      by (rule sum.cong) (use uc that in \<open>auto simp: unit_cols_def\<close>)
    ultimately show ?thesis using that by simp
  qed
  have sol: "(\<Sum>j<k. entry A' j k * of_int (xs ! i) ^ j) = of_int (ys ! i)" if "i < k" for i
  proof -
    let ?w = "\<lambda>j. if j < k then entry A' j k else - 1"
    have "kernel_vec k (entry A') ?w"
      by (simp add: kernel_vec_def dA')
    then have "kernel_vec k (entry A) ?w" by (simp add: ker)
    with that have "dot k (entry A) i ?w = 0" by (simp add: kernel_vec_def)
    with dA [OF that, of ?w] show ?thesis by simp
  qed
  have uniq: "\<forall>j<k. entry A' j k = c j"
    if c: "\<forall>i<k. (\<Sum>j<k. c j * of_int (xs ! i) ^ j) = of_int (ys ! i)" for c
  proof -
    let ?w = "\<lambda>j. if j < k then c j else - 1"
    have "kernel_vec k (entry A) ?w"
      using c by (simp add: kernel_vec_def dA)
    then have "kernel_vec k (entry A') ?w" by (simp add: ker)
    then have "\<forall>i<k. dot k (entry A') i ?w = 0" by (simp add: kernel_vec_def)
    then show ?thesis by (simp add: dA')
  qed
  from A(1) A' sol uniq show ?thesis
    unfolding k_def by blast
qed


lemma elimination_total:
  "wf_matrix k A \<Longrightarrow> row = col \<Longrightarrow>
   \<exists>r. elimination k col row A = Inr r \<and> (\<forall>A'. r = Some A' \<longrightarrow> wf_matrix k A')"
proof (induction "k - col" arbitrary: col row A)
  case 0
  then have "\<not> col < k" by simp
  with 0 show ?case by (simp add: elimination.simps)
next
  case (Suc n)
  from Suc.hyps(2) have c: "col < k" by simp
  note wf = Suc.prems(1) and rc = Suc.prems(2)
  define sel where "sel = find_pivot A k col col"
  show ?case
  proof (cases "num (A ! sel ! col) = 0")
    case True
    with c rc show ?thesis
      by (subst elimination.simps) (simp add: Let_def sel_def)
  next
    case nz: False
    with find_pivot_cases [OF c, of A col] c have sel: "col \<le> sel" "sel < k"
      by (auto simp: sel_def)
    define A1 where "A1 = (if sel \<noteq> col then A[sel := A ! col, col := A ! sel] else A)"
    have wf1: "wf_matrix k A1"
      using swap_rows(1) [OF wf sel(2) c] wf by (simp add: A1_def)
    have e1: "entry A1 col col = entry A sel col"
      using swap_rows(2) [OF wf sel(2) c c, of col] by (auto simp: A1_def)
    define pivot where "pivot = A1 ! col ! col"
    have pr: "reduced pivot" unfolding pivot_def using wf1 c by (simp add: wf_matrix_reduced)
    have "entry A sel col \<noteq> 0"
      using nz wf_matrix_reduced [OF wf sel(2), of col] c by (simp add: entry_def to_rat_zero_iff)
    with e1 have "to_rat pivot \<noteq> 0" by (simp add: pivot_def entry_def)
    with pr have pn: "num pivot \<noteq> 0" by (simp add: to_rat_zero_iff)
    from normalize_row_correct [OF wf1 c _ pr pn, of col] c obtain A2
      where A2: "normalize_row k col col pivot A1 = Inr A2" "wf_matrix k A2"
      by auto
    from eliminate_rows_correct [OF A2(2) c, of col] c obtain A3
      where A3: "eliminate_rows k col col A2 = Inr A3" "wf_matrix k A3"
      by auto
    have "elimination k col col A =
        (case normalize_row k col col pivot A1 of
           Inl e \<Rightarrow> Inl e
         | Inr A2 \<Rightarrow>
             (case eliminate_rows k col col A2 of
                Inl e \<Rightarrow> Inl e
              | Inr A3 \<Rightarrow> elimination k (Suc col) (Suc col) A3))"
      using c nz [unfolded sel_def]
      by (subst elimination.simps) (simp add: Let_def pivot_def A1_def sel_def)
    with A2(1) A3(1) rc
    have unfold: "elimination k col row A = elimination k (Suc col) (Suc row) A3"
      by simp
    have "\<exists>r. elimination k (Suc col) (Suc row) A3 = Inr r \<and> (\<forall>A'. r = Some A' \<longrightarrow> wf_matrix k A')"
      by (rule Suc.hyps(1)) (use Suc.hyps(2) A3(2) rc in simp_all)
    with unfold show ?thesis by simp
  qed
qed


lemma interpolate_and_check_with_solved:
  assumes "length xs \<le> length ys" "build_matrix xs ys = Inr A"
    "elimination (length xs) 0 0 A = Inr (Some A')"
  shows "interpolate_and_check_with accept xs ys out =
      Inr (list_all accept (map (\<lambda>i. A' ! i ! length xs) [0..<length xs]),
           map (\<lambda>i. A' ! i ! length xs) [0..<length xs])"
    and "\<forall>i<length xs. reduced (A' ! i ! length xs)"
proof -
  show "interpolate_and_check_with accept xs ys out =
      Inr (list_all accept (map (\<lambda>i. A' ! i ! length xs) [0..<length xs]),
           map (\<lambda>i. A' ! i ! length xs) [0..<length xs])"
    using assms(2,3) by (simp add: interpolate_and_check_with_def collect_solution_eq Let_def)
  from build_matrix_correct [OF assms(1)] assms(2) have "wf_matrix (length xs) A" by auto
  from elimination_total [OF this refl, of 0] assms(3) have "wf_matrix (length xs) A'" by auto
  then show "\<forall>i<length xs. reduced (A' ! i ! length xs)"
    by (simp add: wf_matrix_def)
qed




section \<open>Termination of the search\<close>

lemma find_descent_Some:
  "find_descent a n = Some i \<Longrightarrow> i < n \<and> a ! Suc i < a ! i"
  by (induction n) (auto split: if_splits)

lemma find_smaller_spec:
  "j0 < n \<Longrightarrow> a ! j0 < v \<Longrightarrow>
   find_smaller a v n < n \<and> a ! find_smaller a v n < v \<and> j0 \<le> find_smaller a v n"
  by (induction n) (auto simp: less_Suc_eq)

lemma list_less_nth:
  fixes xs ys :: "int list"
  assumes "take i xs = take i ys" "i < length xs" "i < length ys" "xs ! i < ys ! i"
  shows "xs < ys"
proof -
  have "xs = take i ys @ xs ! i # drop (Suc i) xs"
    using assms(1,2) id_take_nth_drop [of i xs] by simp
  moreover have "ys = take i ys @ ys ! i # drop (Suc i) ys"
    using assms(3) by (rule id_take_nth_drop)
  moreover have "take i ys @ xs ! i # drop (Suc i) xs < take i ys @ ys ! i # drop (Suc i) ys"
    using assms(4) by (simp add: list_less_def lexord_append_leftI)
  ultimately show ?thesis by metis
qed

lemma prev_permutation_True:
  assumes "prev_permutation a = (True, b)"
  shows "mset b = mset a \<and> b < a"
proof -
  from assms obtain i where i: "find_descent a (length a - 1) = Some i"
    by (auto simp: prev_permutation_def split: option.splits)
  define i2 where "i2 = find_smaller a (a ! i) (length a)"
  define c where "c = a[i := a ! i2, i2 := a ! i]"
  from assms i have b: "b = take (Suc i) c @ rev (drop (Suc i) c)"
    by (simp add: prev_permutation_def Let_def c_def i2_def)
  from find_descent_Some [OF i] have il: "Suc i < length a" and d: "a ! Suc i < a ! i"
    by auto
  from find_smaller_spec [OF il d] have i2: "i2 < length a" "a ! i2 < a ! i" "Suc i \<le> i2"
    by (simp_all add: i2_def)
  have "mset b = mset c"
    unfolding b by (metis append_take_drop_id mset_append mset_rev)
  also have "\<dots> = mset a"
    unfolding c_def using il i2(1) mset_swap [of i2 a i] by simp
  finally have m: "mset b = mset a" .
  have "take i b = take i a"
    using il i2 by (simp add: b c_def take_Suc_conv_app_nth min_def)
  moreover have "b ! i = a ! i2"
    using il i2 by (simp add: b c_def nth_append)
  moreover have "length b = length a" by (simp add: b c_def)
  ultimately have "b < a"
    using il i2(2) by (intro list_less_nth [of i]) simp_all
  with m show ?thesis by simp
qed

lemma prev_permutation_decreases:
  assumes "prev_permutation a = (True, b)"
  shows "card {p. mset p = mset b \<and> p < b} < card {p. mset p = mset a \<and> p < a}"
proof (rule psubset_card_mono)
  from prev_permutation_True [OF assms] have m: "mset b = mset a" and l: "b < a" by simp_all
  show "finite {p. mset p = mset a \<and> p < a}"
    using mset_eq_finite [of a] by (rule rev_finite_subset) auto
  have "b \<in> {p. mset p = mset a \<and> p < a}" using m l by simp
  moreover have "b \<notin> {p. mset p = mset b \<and> p < b}" by simp
  moreover have "{p. mset p = mset b \<and> p < b} \<subseteq> {p. mset p = mset a \<and> p < a}"
    using m l by auto
  ultimately show "{p. mset p = mset b \<and> p < b} \<subset> {p. mset p = mset a \<and> p < a}"
    by blast
qed

termination search_loop
  by (relation "measure (\<lambda>(ic, xs_full, ys_full, k, chosen). card {p. mset p = mset chosen \<and> p < chosen})")
    (auto dest: prev_permutation_decreases [OF sym])

termination masks_from
  by (relation "measure (\<lambda>chosen. card {p. mset p = mset chosen \<and> p < chosen})")
    (auto dest: prev_permutation_decreases [OF sym])

declare search_loop.simps [simp del] masks_from.simps [simp del]










section \<open>The order of enumeration\<close>























section \<open>The documented examples\<close>

text \<open>
  Claim C9, as stated, fails: on \<open>(1,3), (2,6), (3,11)\<close> the search returns 2, not 1, and on
  \<open>(1,5), (2,8), (3,13), (4,20)\<close> it returns 4, not 2. Neither polynomial of the claim passes
  through its points: \<open>x\<^sup>2 + x + 1\<close> is 7 at 2, and \<open>x\<^sup>2 + 2x + 2\<close> is 10 at 2.
\<close>

theorem documented_examples_counterexample:
  "snd (find_valid_constant [1, 2, 3] [3, 6, 11] 3) \<noteq> Inr (Some 1) \<and>
   map (eval_poly [1, 1, 1]) [1, 2, 3] \<noteq> [3, 6, 11] \<and>
   snd (find_valid_constant [1, 2, 3, 4] [5, 8, 13, 20] 3) \<noteq> Inr (Some 2) \<and>
   map (eval_poly [2, 2, 1]) [1, 2, 3] \<noteq> [5, 8, 13]"
  by code_simp

text \<open>
  Claim C9, amended. The first three points lie on \<open>x\<^sup>2 + 2\<close> and the search returns its
  constant term 2. The four points of the second example lie on \<open>x\<^sup>2 + 4\<close>; the subset of
  the first three is the first mask of the enumeration, it is accepted, and the search
  returns 4 after examining that subset alone.
\<close>

theorem documented_examples_amended:
  "find_valid_constant [1, 2, 3] [3, 6, 11] 3 = ([[1, 1, 1]], Inr (Some 2)) \<and>
   map (eval_poly [2, 0, 1]) [1, 2, 3] = [3, 6, 11] \<and>
   find_valid_constant [1, 2, 3, 4] [5, 8, 13, 20] 3 = ([[1, 1, 1, 0]], Inr (Some 4)) \<and>
   map (eval_poly [4, 0, 1]) [1, 2, 3, 4] = [5, 8, 13, 20] \<and>
   hd (masks_from (initial_chosen 4 3)) = [1, 1, 1, 0]"
  by code_simp

section \<open>The two acceptance policies\<close>

text \<open>
  Claim C10. On the points \<open>(1,3), (2,7), (3,11), (4,21)\<close> with threshold 3 the first subset
  gives \<open>4x - 1\<close> and the second gives \<open>x\<^sup>2 + x + 1\<close>. Both have integer coefficients, so the
  policy of \<^verbatim>\<open>code.cpp\<close> accepts both and the search stops at the first with \<open>-1\<close>. The
  policy of the other file wants every coefficient positive: it rejects the first subset,
  accepts the second and returns \<open>1\<close>. So the two checks differ as functions.
\<close>

theorem policies_differ:
  "interpolate_and_check [1, 2, 3] [3, 7, 11] [] =
     Inr (True, [\<lparr>num = - 1, den = 1\<rparr>, \<lparr>num = 4, den = 1\<rparr>, \<lparr>num = 0, den = 1\<rparr>]) \<and>
   interpolate_and_check [1, 2, 4] [3, 7, 21] [] =
     Inr (True, [\<lparr>num = 1, den = 1\<rparr>, \<lparr>num = 1, den = 1\<rparr>, \<lparr>num = 1, den = 1\<rparr>]) \<and>
   interpolate_and_check_strict [1, 2, 3] [3, 7, 11] [] =
     Inr (False, [\<lparr>num = - 1, den = 1\<rparr>, \<lparr>num = 4, den = 1\<rparr>, \<lparr>num = 0, den = 1\<rparr>]) \<and>
   find_valid_constant [1, 2, 3, 4] [3, 7, 11, 21] 3 = ([[1, 1, 1, 0]], Inr (Some (- 1))) \<and>
   find_valid_constant_strict [1, 2, 3, 4] [3, 7, 11, 21] 3 =
     ([[1, 1, 1, 0], [1, 1, 0, 1]], Inr (Some 1)) \<and>
   interpolate_and_check \<noteq> interpolate_and_check_strict"
proof -
  have a: "interpolate_and_check [1, 2, 3] [3, 7, 11] [] =
     Inr (True, [\<lparr>num = - 1, den = 1\<rparr>, \<lparr>num = 4, den = 1\<rparr>, \<lparr>num = 0, den = 1\<rparr>])"
    by code_simp
  have b: "interpolate_and_check_strict [1, 2, 3] [3, 7, 11] [] =
     Inr (False, [\<lparr>num = - 1, den = 1\<rparr>, \<lparr>num = 4, den = 1\<rparr>, \<lparr>num = 0, den = 1\<rparr>])"
    by code_simp
  have c: "interpolate_and_check [1, 2, 4] [3, 7, 21] [] =
     Inr (True, [\<lparr>num = 1, den = 1\<rparr>, \<lparr>num = 1, den = 1\<rparr>, \<lparr>num = 1, den = 1\<rparr>])"
    by code_simp
  have d: "find_valid_constant [1, 2, 3, 4] [3, 7, 11, 21] 3 = ([[1, 1, 1, 0]], Inr (Some (- 1)))"
    by code_simp
  have e: "find_valid_constant_strict [1, 2, 3, 4] [3, 7, 11, 21] 3 =
     ([[1, 1, 1, 0], [1, 1, 0, 1]], Inr (Some 1))"
    by code_simp
  from a b have "interpolate_and_check \<noteq> interpolate_and_check_strict"
    by (metis Pair_inject sum.inject(2))
  with a b c d e show ?thesis by simp
qed

section \<open>Too few points\<close>

text \<open>
  Claim C6, as stated, fails: the program has one failure value, \<^verbatim>\<open>false\<close>. A request with
  one point and threshold 2 and a request whose only subset gives the coefficients
  \<open>-1/2, 1/2\<close> end in the same outcome. No \<open>InsufficientPoints\<close> exists that would tell
  them apart.
\<close>

theorem insufficient_points_counterexample:
  "\<not> snd (find_valid_constant [1] [0] 2) \<noteq> snd (find_valid_constant [1, 3] [0, 1] 2)"
  by code_simp

text \<open>
  Claim C6, amended. With fewer points than the threshold the search returns \<^verbatim>\<open>false\<close> at
  once, the outcome it also has when no subset is accepted, and the body of its loop runs
  for no subset. This holds for either acceptance policy.
\<close>

theorem insufficient_points_fail_fast:
  "int (length xs_full) < k \<Longrightarrow> find_valid_constant_with ic xs_full ys_full k = ([], Inr None)"
  by (simp add: find_valid_constant_with_def)

theorem insufficient_points_fail_fast_witness:
  "int (length [1 :: int, 2]) < 4 \<and>
   find_valid_constant_with interpolate_and_check [1, 2] [7, 9] 4 = ([], Inr None)"
  using insufficient_points_fail_fast [of "[1, 2]" 4 interpolate_and_check "[7, 9]"]
  by simp

section \<open>Claims about the interpolation\<close>

text \<open>
  Claim C8. For pairwise distinct x-coordinates (and a y-coordinate for each) neither the
  construction of the matrix nor the elimination throws, whatever the acceptance policy:
  no fraction is built on a zero denominator, no division is by a zero pivot. The
  elimination finds a nonzero pivot in every column: it never returns through the branch
  for a singular column, which is \<open>Inr None\<close> here.
\<close>

theorem distinct_points_never_singular:
  assumes "distinct xs" and "length xs \<le> length ys"
  shows "\<exists>A A' ok coeffs.
     build_matrix xs ys = Inr A \<and>
     elimination (length xs) 0 0 A = Inr (Some A') \<and>
     interpolate_and_check_with accept xs ys out = Inr (ok, coeffs)"
proof -
  from elimination_vandermonde [OF assms] obtain A A'
    where A: "build_matrix xs ys = Inr A" "elimination (length xs) 0 0 A = Inr (Some A')"
    by blast
  with interpolate_and_check_with_solved(1) [OF assms(2) A] show ?thesis by blast
qed

theorem distinct_points_never_singular_witness:
  "distinct [1 :: int, 3] \<and> length [1 :: int, 3] \<le> length [0 :: int, 1] \<and>
   build_matrix [1, 3] [0, 1] =
     Inr [[\<lparr>num = 1, den = 1\<rparr>, \<lparr>num = 1, den = 1\<rparr>, \<lparr>num = 0, den = 1\<rparr>],
          [\<lparr>num = 1, den = 1\<rparr>, \<lparr>num = 3, den = 1\<rparr>, \<lparr>num = 1, den = 1\<rparr>]] \<and>
   elimination (length [1 :: int, 3]) 0 0
       [[\<lparr>num = 1, den = 1\<rparr>, \<lparr>num = 1, den = 1\<rparr>, \<lparr>num = 0, den = 1\<rparr>],
        [\<lparr>num = 1, den = 1\<rparr>, \<lparr>num = 3, den = 1\<rparr>, \<lparr>num = 1, den = 1\<rparr>]] =
     Inr (Some [[\<lparr>num = 1, den = 1\<rparr>, \<lparr>num = 0, den = 1\<rparr>, \<lparr>num = - 1, den = 2\<rparr>],
                [\<lparr>num = 0, den = 1\<rparr>, \<lparr>num = 1, den = 1\<rparr>, \<lparr>num = 1, den = 2\<rparr>]]) \<and>
   interpolate_and_check_with isInteger [1, 3] [0, 1] [] =
     Inr (False, [\<lparr>num = - 1, den = 2\<rparr>, \<lparr>num = 1, den = 2\<rparr>])"
proof -
  have d: "distinct [1 :: int, 3]" by simp
  have l: "length [1 :: int, 3] \<le> length [0 :: int, 1]" by simp
  have b: "build_matrix [1, 3] [0, 1] =
     Inr [[\<lparr>num = 1, den = 1\<rparr>, \<lparr>num = 1, den = 1\<rparr>, \<lparr>num = 0, den = 1\<rparr>],
          [\<lparr>num = 1, den = 1\<rparr>, \<lparr>num = 3, den = 1\<rparr>, \<lparr>num = 1, den = 1\<rparr>]]"
    by code_simp
  have e: "elimination (length [1 :: int, 3]) 0 0
       [[\<lparr>num = 1, den = 1\<rparr>, \<lparr>num = 1, den = 1\<rparr>, \<lparr>num = 0, den = 1\<rparr>],
        [\<lparr>num = 1, den = 1\<rparr>, \<lparr>num = 3, den = 1\<rparr>, \<lparr>num = 1, den = 1\<rparr>]] =
     Inr (Some [[\<lparr>num = 1, den = 1\<rparr>, \<lparr>num = 0, den = 1\<rparr>, \<lparr>num = - 1, den = 2\<rparr>],
                [\<lparr>num = 0, den = 1\<rparr>, \<lparr>num = 1, den = 1\<rparr>, \<lparr>num = 1, den = 2\<rparr>]])"
    by code_simp
  have i: "interpolate_and_check_with isInteger [1, 3] [0, 1] [] =
     Inr (False, [\<lparr>num = - 1, den = 2\<rparr>, \<lparr>num = 1, den = 2\<rparr>])"
    by code_simp
  from distinct_points_never_singular [OF d l, of isInteger "[]"] d l b e i
  show ?thesis by simp
qed




section \<open>Claims about the search\<close>






section \<open>A malformed record in a batch\<close>

text \<open>
  Claim C5 does not hold of the program. \<^verbatim>\<open>main\<close> writes \<^verbatim>\<open>ERROR\<close> for a record on which
  \<^verbatim>\<open>solve_one_json_string\<close> returns \<^verbatim>\<open>false\<close> and goes on to the next record, but it
  has no handler for the exceptions of \<^verbatim>\<open>parse_in_base_cpp\<close>, \<^verbatim>\<open>stoll\<close>, \<^verbatim>\<open>stoi\<close> and the
  two \<^verbatim>\<open>parse_..._after_key\<close> functions. A record whose value has the digit 7 in base 2, or
  whose \<open>n\<close> is not a number, ends the process before the next record is read, although
  that record alone gives 5. A record that merely has no consistent subset does not.
\<close>

theorem malformed_record_ends_batch:
  "main interpolate_and_check 1000
     (record_of 1 1 [(1, ''2'', ''7'')] @ record_of 1 1 [(1, ''10'', ''5'')]) =
     ([], Terminate (runtime_error ''digit >= base in parse_in_base_cpp'')) \<and>
   main interpolate_and_check 1000
     (''{'' @ quoted ''keys'' @ '': {'' @ quoted ''n'' @ '': x, '' @ quoted ''k'' @ '': 1}}'' @
      record_of 1 1 [(1, ''10'', ''5'')]) =
     ([], Terminate invalid_argument) \<and>
   main interpolate_and_check 1000 (record_of 1 1 [(1, ''10'', ''5'')]) = ([''5''], Exit 0) \<and>
   main interpolate_and_check 1000
     (record_of 3 2 [(1, ''10'', ''0''), (3, ''10'', ''1'')] @ record_of 1 1 [(1, ''10'', ''5'')]) =
     ([''ERROR'', ''5''], Exit 0)"
  by code_simp

section \<open>The elimination solves the system\<close>

text \<open>
  The coefficients the check returns for pairwise distinct x-coordinates are reduced
  fractions, and the polynomial they make passes through every one of the points: the
  elimination has solved the Vandermonde system exactly. The flag is the final test on
  these coefficients.
\<close>

theorem interpolation_solves_system:
  assumes "distinct xs" and "length xs \<le> length ys"
  shows "\<exists>coeffs.
     interpolate_and_check_with accept xs ys out = Inr (list_all accept coeffs, coeffs) \<and>
     length coeffs = length xs \<and>
     (\<forall>i<length xs. reduced (coeffs ! i) \<and>
        (\<Sum>j<length xs. to_rat (coeffs ! j) * of_int (xs ! i) ^ j) = of_int (ys ! i))"
proof -
  from elimination_vandermonde [OF assms] obtain A A'
    where A: "build_matrix xs ys = Inr A" "elimination (length xs) 0 0 A = Inr (Some A')"
      and sol: "\<forall>i<length xs.
        (\<Sum>j<length xs. entry A' j (length xs) * of_int (xs ! i) ^ j) = of_int (ys ! i)"
    by blast
  let ?cs = "map (\<lambda>i. A' ! i ! length xs) [0..<length xs]"
  note r = interpolate_and_check_with_solved [OF assms(2) A]
  have "(\<Sum>j<length xs. to_rat (?cs ! j) * of_int (xs ! i) ^ j) = of_int (ys ! i)"
    if "i < length xs" for i
  proof -
    have "(\<Sum>j<length xs. to_rat (?cs ! j) * of_int (xs ! i) ^ j) =
        (\<Sum>j<length xs. entry A' j (length xs) * of_int (xs ! i) ^ j)"
      by (rule sum.cong) (simp_all add: entry_def)
    with sol that show ?thesis by simp
  qed
  with r show ?thesis by auto
qed

theorem interpolation_solves_system_witness:
  "distinct [1 :: int, 3] \<and> length [1 :: int, 3] \<le> length [0 :: int, 1] \<and>
   interpolate_and_check_with isInteger [1, 3] [0, 1] [] =
     Inr (False, [\<lparr>num = - 1, den = 2\<rparr>, \<lparr>num = 1, den = 2\<rparr>]) \<and>
   to_rat \<lparr>num = - 1, den = 2\<rparr> * 1 + to_rat \<lparr>num = 1, den = 2\<rparr> * 1 = 0 \<and>
   to_rat \<lparr>num = - 1, den = 2\<rparr> * 1 + to_rat \<lparr>num = 1, den = 2\<rparr> * 3 = 1"
proof -
  have d: "distinct [1 :: int, 3]" by simp
  have l: "length [1 :: int, 3] \<le> length [0 :: int, 1]" by simp
  have i: "interpolate_and_check_with isInteger [1, 3] [0, 1] [] =
     Inr (False, [\<lparr>num = - 1, den = 2\<rparr>, \<lparr>num = 1, den = 2\<rparr>])"
    by code_simp
  from interpolation_solves_system [OF d l, of isInteger "[]"] i
  have h: "\<forall>i<Suc (Suc 0). to_rat \<lparr>num = - 1, den = 2\<rparr> +
      to_rat \<lparr>num = 1, den = 2\<rparr> * rat_of_int ([1, 3] ! i) = rat_of_int ([0, 1] ! i)"
    by auto
  from h [rule_format, of 0] h [rule_format, of 1]
  have "to_rat \<lparr>num = - 1, den = 2\<rparr> * 1 + to_rat \<lparr>num = 1, den = 2\<rparr> * 1 = 0"
    and "to_rat \<lparr>num = - 1, den = 2\<rparr> * 1 + to_rat \<lparr>num = 1, den = 2\<rparr> * 3 = 1"
    by simp_all
  with d l i show ?thesis by simp
qed

end
